theory Spec2Isabelle
  imports Complex_Main "HOL-Library.Monad_Syntax"
begin

section \<open>Floating-point values\<close>

text \<open>
  The sampler computes with \<^verbatim>\<open>double\<close> and \<^verbatim>\<open>long double\<close>. A value is one of the
  IEEE-754 special values (not-a-number, minus infinity, plus infinity) or a finite
  number, a real. The operations of this section are the exact ones: they give the special
  values their IEEE-754 rules (\<^verbatim>\<open>inf - inf\<close>, \<^verbatim>\<open>0 * inf\<close>, \<^verbatim>\<open>0 / 0\<close> and \<^verbatim>\<open>inf / inf\<close> are NaN,
  every comparison with NaN is false, \<^verbatim>\<open>exp(-inf) = 0\<close> and \<^verbatim>\<open>log(0) = -inf\<close>) and compute a
  finite result as a real number. What the machine delivers in place of that real number is
  the subject of the next section. The sign of zero is not modelled.
\<close>

datatype double = NaN | MInf | PInf | Fin real

fun dneg :: "double \<Rightarrow> double" where
  "dneg NaN = NaN"
| "dneg MInf = PInf"
| "dneg PInf = MInf"
| "dneg (Fin x) = Fin (- x)"

fun dadd :: "double \<Rightarrow> double \<Rightarrow> double" where
  "dadd (Fin x) (Fin y) = Fin (x + y)"
| "dadd NaN _ = NaN"
| "dadd _ NaN = NaN"
| "dadd PInf MInf = NaN"
| "dadd MInf PInf = NaN"
| "dadd PInf _ = PInf"
| "dadd _ PInf = PInf"
| "dadd MInf _ = MInf"
| "dadd _ MInf = MInf"

definition dsub :: "double \<Rightarrow> double \<Rightarrow> double" where
  "dsub a b = dadd a (dneg b)"

fun dmul :: "double \<Rightarrow> double \<Rightarrow> double" where
  "dmul (Fin x) (Fin y) = Fin (x * y)"
| "dmul NaN _ = NaN"
| "dmul _ NaN = NaN"
| "dmul (Fin x) PInf = (if x = 0 then NaN else if 0 < x then PInf else MInf)"
| "dmul (Fin x) MInf = (if x = 0 then NaN else if 0 < x then MInf else PInf)"
| "dmul PInf (Fin y) = (if y = 0 then NaN else if 0 < y then PInf else MInf)"
| "dmul MInf (Fin y) = (if y = 0 then NaN else if 0 < y then MInf else PInf)"
| "dmul PInf PInf = PInf"
| "dmul MInf MInf = PInf"
| "dmul PInf MInf = MInf"
| "dmul MInf PInf = MInf"

fun ddiv :: "double \<Rightarrow> double \<Rightarrow> double" where
  "ddiv (Fin x) (Fin y) =
     (if y \<noteq> 0 then Fin (x / y) else if x = 0 then NaN else if 0 < x then PInf else MInf)"
| "ddiv NaN _ = NaN"
| "ddiv _ NaN = NaN"
| "ddiv (Fin x) PInf = Fin 0"
| "ddiv (Fin x) MInf = Fin 0"
| "ddiv PInf (Fin y) = (if 0 \<le> y then PInf else MInf)"
| "ddiv MInf (Fin y) = (if 0 \<le> y then MInf else PInf)"
| "ddiv PInf PInf = NaN"
| "ddiv PInf MInf = NaN"
| "ddiv MInf PInf = NaN"
| "ddiv MInf MInf = NaN"

text \<open>The comparison \<^verbatim>\<open>a < b\<close>; the source's \<^verbatim>\<open>a > b\<close> is \<open>dless b a\<close>.\<close>

fun dless :: "double \<Rightarrow> double \<Rightarrow> bool" where
  "dless (Fin x) (Fin y) = (x < y)"
| "dless NaN _ = False"
| "dless _ NaN = False"
| "dless MInf MInf = False"
| "dless MInf _ = True"
| "dless PInf _ = False"
| "dless (Fin x) PInf = True"
| "dless (Fin x) MInf = False"

text \<open>\<^verbatim>\<open>std::max(a, b)\<close> is \<^verbatim>\<open>(a < b) ? b : a\<close>.\<close>

definition dmax :: "double \<Rightarrow> double \<Rightarrow> double" where
  "dmax a b = (if dless a b then b else a)"

fun dexp :: "double \<Rightarrow> double" where
  "dexp NaN = NaN"
| "dexp MInf = Fin 0"
| "dexp PInf = PInf"
| "dexp (Fin x) = Fin (exp x)"

fun dlog :: "double \<Rightarrow> double" where
  "dlog NaN = NaN"
| "dlog MInf = NaN"
| "dlog PInf = PInf"
| "dlog (Fin x) = (if x < 0 then NaN else if x = 0 then MInf else Fin (ln x))"

text \<open>The conversion of a \<^verbatim>\<open>long\<close> or an \<^verbatim>\<open>int\<close> to \<^verbatim>\<open>double\<close>.\<close>

definition of_long :: "int \<Rightarrow> double" where
  "of_long n = Fin (real_of_int n)"

text \<open>
  \<^verbatim>\<open>unsigned(floor(x))\<close>: the conversion is undefined unless the floor fits an
  \<^verbatim>\<open>unsigned int\<close>.
\<close>

fun floor_to_unsigned :: "double \<Rightarrow> nat option" where
  "floor_to_unsigned (Fin x) =
     (if 0 \<le> \<lfloor>x\<rfloor> \<and> \<lfloor>x\<rfloor> < 2 ^ 32 then Some (nat \<lfloor>x\<rfloor>) else None)"
| "floor_to_unsigned _ = None"

text \<open>The log-weights of the data model: a real number or minus infinity.\<close>

fun is_logweight :: "double \<Rightarrow> bool" where
  "is_logweight (Fin x) = True"
| "is_logweight MInf = True"
| "is_logweight _ = False"

fun is_finite :: "double \<Rightarrow> bool" where
  "is_finite (Fin x) = True"
| "is_finite _ = False"

text \<open>The exponential of a log-weight as a real number; minus infinity gives zero.\<close>

fun exp_lw :: "double \<Rightarrow> real" where
  "exp_lw (Fin x) = exp x"
| "exp_lw _ = 0"

section \<open>Rounding\<close>

text \<open>
  A machine operation delivers its exact result rounded to the format of its type: a nearby
  number of the format, an infinity when the result is too large, zero when it is too small.
  The formats and the accuracy of the mathematical library depend on the platform (a
  \<^verbatim>\<open>long double\<close> has 64, 113 or 53 bits of precision, and \<^verbatim>\<open>exp\<close> and \<^verbatim>\<open>log\<close> need not
  round correctly), so the arithmetic is a parameter of the model:
  \<^item> \<open>rnd\<close> is what an operation \<^verbatim>\<open>+ - * /\<close> on \<^verbatim>\<open>double\<close>, or a conversion to \<^verbatim>\<open>double\<close>,
    delivers for the finite exact result;
  \<^item> \<open>rndl\<close> is the same for \<^verbatim>\<open>long double\<close>;
  \<^item> \<open>exp_d\<close> and \<open>exp_l\<close> are \<^verbatim>\<open>exp\<close> and \<^verbatim>\<open>expl\<close> at a finite argument;
  \<^item> \<open>log_x\<close> is the \<^verbatim>\<open>log\<close> that \<^verbatim>\<open>GetESS\<close> calls on a \<^verbatim>\<open>long double\<close>, at a positive finite
    argument, and \<open>rndx\<close> the rounding of the arithmetic on its results. Which overload of
    \<^verbatim>\<open>log\<close> the call resolves to, and so the type of these results, depends on the headers.

  The effective sample size and the counting phase of \<^verbatim>\<open>Resample\<close> are written with these
  roundings. The subtraction of the maximum log-weight, the rescaling of the batches and the
  sampling of index vectors are written with the exact operations.
\<close>

record arith =
  rnd :: "real \<Rightarrow> double"
  rndl :: "real \<Rightarrow> double"
  rndx :: "real \<Rightarrow> double"
  exp_d :: "real \<Rightarrow> double"
  exp_l :: "real \<Rightarrow> double"
  log_x :: "real \<Rightarrow> double"

text \<open>
  The result of an operation whose exact result is \<open>d\<close>: a special value stays, an exact
  zero is delivered as zero, any other finite result is rounded.
\<close>

definition rounded :: "(real \<Rightarrow> double) \<Rightarrow> double \<Rightarrow> double" where
  "rounded r d = (case d of Fin x \<Rightarrow> (if x = 0 then Fin 0 else r x) | _ \<Rightarrow> d)"

definition fexp :: "(real \<Rightarrow> double) \<Rightarrow> double \<Rightarrow> double" where
  "fexp e d = (case d of Fin x \<Rightarrow> e x | _ \<Rightarrow> dexp d)"

definition flog :: "(real \<Rightarrow> double) \<Rightarrow> double \<Rightarrow> double" where
  "flog l d = (case d of Fin x \<Rightarrow> (if 0 < x then l x else dlog d) | _ \<Rightarrow> dlog d)"

text \<open>The arithmetic that never rounds.\<close>

definition exact_arith :: arith where
  "exact_arith =
     \<lparr>rnd = Fin, rndl = Fin, rndx = Fin, exp_d = (\<lambda>x. Fin (exp x)),
      exp_l = (\<lambda>x. Fin (exp x)), log_x = (\<lambda>x. Fin (ln x))\<rparr>"

text \<open>
  Rounding to the nearest number of a binary format with \<open>p\<close> bits of precision and the
  least exponent \<open>emin\<close> (the greatest is \<open>1 - emin\<close>), ties to the even neighbour: the unit
  in the last place is \<open>2 ^ (e - p + 1)\<close>, where \<open>e\<close> is the exponent of the argument, and not
  below that of the subnormal numbers.
\<close>

definition round_even :: "real \<Rightarrow> int" where
  "round_even x =
     (let f = \<lfloor>x\<rfloor>; d = x - of_int f
      in if d < 1 / 2 then f else if 1 / 2 < d then f + 1 else if even f then f else f + 1)"

definition round_to :: "nat \<Rightarrow> int \<Rightarrow> real \<Rightarrow> double" where
  "round_to p emin x =
     (if x = 0 then Fin 0
      else (let e = max \<lfloor>log 2 \<bar>x\<bar>\<rfloor> emin;
                q = 2 powi (e - int p + 1);
                y = of_int (round_even (x / q)) * q
            in if 2 powi (2 - emin) \<le> \<bar>y\<bar> then (if x < 0 then MInf else PInf)
               else Fin y))"

text \<open>
  The arithmetic of a common platform: \<^verbatim>\<open>double\<close> is binary64, \<^verbatim>\<open>long double\<close> the 80-bit
  extended format, \<^verbatim>\<open>log\<close> resolves to the \<^verbatim>\<open>long double\<close> overload, and the library rounds
  correctly.
\<close>

definition x86_arith :: arith where
  "x86_arith =
     \<lparr>rnd = round_to 53 (- 1022), rndl = round_to 64 (- 16382), rndx = round_to 64 (- 16382),
      exp_d = (\<lambda>x. round_to 53 (- 1022) (exp x)),
      exp_l = (\<lambda>x. round_to 64 (- 16382) (exp x)),
      log_x = (\<lambda>x. round_to 64 (- 16382) (ln x))\<rparr>"

section \<open>Particles\<close>

text \<open>
  Modelled from the spec: the particle class (\<^verbatim>\<open>particle.hh\<close>) is not among the sources.
  A particle pairs a value of the state space with a log-weight; the weight is the
  exponential of the log-weight, and adding to the log-weight is exact.
\<close>

record 's particle =
  pvalue :: 's
  logweight :: double

definition GetValue :: "'s particle \<Rightarrow> 's" where
  "GetValue p = pvalue p"

definition GetLogWeight :: "'s particle \<Rightarrow> double" where
  "GetLogWeight p = logweight p"

definition GetWeight :: "arith \<Rightarrow> 's particle \<Rightarrow> double" where
  "GetWeight ar p = fexp (exp_d ar) (logweight p)"

definition SetLogWeight :: "'s particle \<Rightarrow> double \<Rightarrow> 's particle" where
  "SetLogWeight p w = p\<lparr>logweight := w\<rparr>"

definition AddToLogWeight :: "'s particle \<Rightarrow> double \<Rightarrow> 's particle" where
  "AddToLogWeight p d = p\<lparr>logweight := dadd (logweight p) d\<rparr>"

definition SetValue :: "'s particle \<Rightarrow> 's \<Rightarrow> 's particle" where
  "SetValue p v = p\<lparr>pvalue := v\<rparr>"

text \<open>\<^verbatim>\<open>particle(value, logweight)\<close>, as \<^verbatim>\<open>emplace_back\<close> constructs one.\<close>

definition new_particle :: "'s \<Rightarrow> double \<Rightarrow> 's particle" where
  "new_particle v w = \<lparr>pvalue = v, logweight = w\<rparr>"

section \<open>Enumerations and failures\<close>

datatype ResampleType =
  SMC_RESAMPLE_MULTINOMIAL
| SMC_RESAMPLE_RESIDUAL
| SMC_RESAMPLE_STRATIFIED
| SMC_RESAMPLE_SYSTEMATIC
| SMC_RESAMPLE_FRIBBLEBITS

datatype HistoryType = SMC_HISTORY_NONE | SMC_HISTORY_RAM

text \<open>
  What a call can throw: the library's own exception, and \<^verbatim>\<open>std::length_error\<close> from
  \<^verbatim>\<open>std::vector::resize\<close> with a negative \<^verbatim>\<open>long\<close> (converted to a huge \<^verbatim>\<open>size_t\<close>).
\<close>

datatype failure = SMCX_MISSING_HISTORY | std_length_error

section \<open>The history stack\<close>

text \<open>
  Modelled from the spec: the history class (\<^verbatim>\<open>history.hh\<close>) is not among the sources.
  A snapshot records the population size, a copy of the particles, the acceptance count
  and the flag saying whether a resample came right before. Push copies \<^verbatim>\<open>number\<close>
  particles from the array it is handed and puts the snapshot on top; the plain pop removes the
  top and answers whether there was one; the pop with out-parameters also hands the top's
  contents back, and an empty stack answers false and writes nothing. The newest snapshot is
  the head of the list.
\<close>

record 's historyelement =
  number :: int
  particles :: "'s particle list"
  accepted :: int
  resampled :: bool

type_synonym 's history = "'s historyelement list"

definition historyflags :: "int \<Rightarrow> bool" where
  "historyflags wasResampled = (wasResampled \<noteq> 0)"

definition Push :: "int \<Rightarrow> 's particle list \<Rightarrow> int \<Rightarrow> bool \<Rightarrow> 's history \<Rightarrow> 's history" where
  "Push n ps nAcc fl h =
     \<lparr>number = n, particles = take (nat n) ps, accepted = nAcc, resampled = fl\<rparr> # h"

fun Pop :: "'s history \<Rightarrow> bool \<times> 's history" where
  "Pop [] = (False, [])"
| "Pop (e # h) = (True, h)"

fun Pop_out :: "'s history \<Rightarrow> 's historyelement option \<times> 's history" where
  "Pop_out [] = (None, [])"
| "Pop_out (e # h) = (Some e, h)"

section \<open>The move set and the random number generator\<close>

text \<open>
  The move set (\<^verbatim>\<open>moveset.hh\<close>) holds the client's three kernels, and the generator
  (\<^verbatim>\<open>rng.hh\<close>) wraps an external library; neither is among the sources, and both are taken as
  parameters. The generator is a state \<open>'r\<close> that every draw reads and advances. A kernel
  receives the generator and the particle by reference: here it returns both.
\<close>

record ('s, 'r) moveset =
  DoInit :: "'r \<Rightarrow> 's particle \<times> 'r"
  DoMove :: "int \<Rightarrow> 's particle \<Rightarrow> 'r \<Rightarrow> 's particle \<times> 'r"
  DoMCMC :: "int \<Rightarrow> 's particle \<Rightarrow> 'r \<Rightarrow> (bool \<times> 's particle) \<times> 'r"

text \<open>
  \<open>Uniform g lo hi\<close> draws from the half-open interval; \<open>Multinomial g n k w\<close> draws the
  \<open>k\<close> counts of \<open>n\<close> trials with the unnormalised weights \<open>w\<close>.
\<close>

record 'r rng =
  Uniform :: "'r \<Rightarrow> double \<Rightarrow> double \<Rightarrow> double \<times> 'r"
  Multinomial :: "'r \<Rightarrow> nat \<Rightarrow> nat \<Rightarrow> double list \<Rightarrow> nat list \<times> 'r"

section \<open>The sampler\<close>

record ('s, 'r) sampler =
  pRng :: 'r
  N :: int
  T :: int
  rtResampleMode :: ResampleType
  dResampleThreshold :: double
  dRSWeights :: "double list"
  uRSCount :: "nat list"
  uRSIndices :: "nat list"
  pParticles :: "'s particle list"
  Moves :: "('s, 'r) moveset"
  nAccepted :: int
  nResampled :: int
  htHistoryMode :: HistoryType
  History :: "'s history"

text \<open>
  The class invariant: the population and the three workspace arrays hold \<open>N\<close> elements.
  The constructors establish it, and the source asserts its first part
  (\<^verbatim>\<open>assert(pParticles.size() == N)\<close>).
\<close>

definition sampler_inv :: "('s, 'r) sampler \<Rightarrow> bool" where
  "sampler_inv s =
     (0 \<le> N s \<and> length (pParticles s) = nat (N s) \<and> length (dRSWeights s) = nat (N s)
      \<and> length (uRSCount s) = nat (N s) \<and> length (uRSIndices s) = nat (N s))"

subsection \<open>Construction\<close>

text \<open>
  The constructors assign the generator, \<open>N\<close>, the four vectors, the history mode, the
  resampling mode and the threshold. Every other member keeps what the object held before
  the body ran: \<open>T\<close>, \<open>nAccepted\<close> and \<open>nResampled\<close> are indeterminate, the move set and the
  history are default-constructed. \<open>raw\<close> is that object, \<open>p0\<close> a default-constructed
  particle, \<open>new_rng\<close> the generator \<^verbatim>\<open>new rng()\<close> makes and \<open>new_rng_seeded\<close> the one
  \<^verbatim>\<open>new rng(rngType, rngSeed)\<close> makes.
\<close>

definition sampler_ctor ::
  "('s, 'r) sampler \<Rightarrow> 's particle \<Rightarrow> 'r \<Rightarrow> int \<Rightarrow> HistoryType \<Rightarrow> failure + ('s, 'r) sampler" where
  "sampler_ctor raw p0 new_rng lSize htHM =
     (if lSize < 0 then Inl std_length_error
      else Inr (raw\<lparr>pRng := new_rng, N := lSize,
                   pParticles := replicate (nat lSize) p0,
                   dRSWeights := replicate (nat lSize) (Fin 0),
                   uRSCount := replicate (nat lSize) 0,
                   uRSIndices := replicate (nat lSize) 0,
                   htHistoryMode := htHM,
                   rtResampleMode := SMC_RESAMPLE_STRATIFIED,
                   dResampleThreshold := dmul (Fin 0.5) (of_long lSize)\<rparr>))"

definition sampler_ctor_rng ::
  "('s, 'r) sampler \<Rightarrow> 's particle \<Rightarrow> ('t \<Rightarrow> nat \<Rightarrow> 'r) \<Rightarrow> int \<Rightarrow> HistoryType \<Rightarrow> 't \<Rightarrow> nat
     \<Rightarrow> failure + ('s, 'r) sampler" where
  "sampler_ctor_rng raw p0 new_rng_seeded lSize htHM rngType rngSeed =
     (if lSize < 0 then Inl std_length_error
      else Inr (raw\<lparr>pRng := new_rng_seeded rngType rngSeed, N := lSize,
                   pParticles := replicate (nat lSize) p0,
                   dRSWeights := replicate (nat lSize) (Fin 0),
                   uRSCount := replicate (nat lSize) 0,
                   uRSIndices := replicate (nat lSize) 0,
                   htHistoryMode := htHM,
                   rtResampleMode := SMC_RESAMPLE_STRATIFIED,
                   dResampleThreshold := dmul (Fin 0.5) (of_long lSize)\<rparr>))"

subsection \<open>Effective sample size\<close>

text \<open>
  Two passes over the whole particle vector, \<^verbatim>\<open>sum += expl(w)\<close> and
  \<^verbatim>\<open>sumsq += expl(2.0 * w)\<close>, in \<^verbatim>\<open>long double\<close> (the product \<^verbatim>\<open>2.0 * w\<close> is a \<^verbatim>\<open>double\<close>),
  then \<^verbatim>\<open>return expl(-log(sumsq) + 2 * log(sum))\<close>, converted to \<^verbatim>\<open>double\<close>. Every operation
  rounds.
\<close>

definition ess_of :: "arith \<Rightarrow> 's particle list \<Rightarrow> double" where
  "ess_of ar ps =
     (let sum = foldl (\<lambda>s p. rounded (rndl ar) (dadd s (fexp (exp_l ar) (GetLogWeight p))))
                  (Fin 0) ps;
          sumsq = foldl (\<lambda>s p. rounded (rndl ar)
                     (dadd s (fexp (exp_l ar) (rounded (rnd ar) (dmul (Fin 2) (GetLogWeight p))))))
                    (Fin 0) ps
      in rounded (rnd ar)
           (fexp (exp_l ar)
              (rounded (rndx ar)
                 (dadd (dneg (flog (log_x ar) sumsq))
                       (rounded (rndx ar) (dmul (Fin 2) (flog (log_x ar) sum)))))))"

definition GetESS :: "arith \<Rightarrow> ('s, 'r) sampler \<Rightarrow> double" where
  "GetESS ar s = ess_of ar (pParticles s)"

subsection \<open>Initialisation\<close>

text \<open>
  A call that does not return normally has the result \<open>None\<close>: it runs forever, fails an
  assertion, or reads or writes past the end of a vector (a read or a write through
  \<^verbatim>\<open>operator[]\<close> at an index that is not below the size has no defined outcome).
\<close>

fun init_loop ::
  "('s, 'r) moveset \<Rightarrow> nat list \<Rightarrow> 's particle list \<Rightarrow> 'r \<Rightarrow> ('s particle list \<times> 'r) option" where
  "init_loop M [] ps g = Some (ps, g)"
| "init_loop M (i # is) ps g =
     (if i < length ps then (case DoInit M g of (p, g') \<Rightarrow> init_loop M is (ps[i := p]) g')
      else None)"

text \<open>\<^verbatim>\<open>while(History.Pop());\<close>\<close>

function Pop_all :: "'s history \<Rightarrow> 's history" where
  "Pop_all h = (case Pop h of (True, h') \<Rightarrow> Pop_all h' | (False, h') \<Rightarrow> h')"
  by pat_completeness auto
termination
  apply (relation "measure length")
   apply simp
  subgoal for h x y by (cases h) auto
  done

definition Initialise :: "('s, 'r) sampler \<Rightarrow> ('s, 'r) sampler option" where
  "Initialise s =
     (case init_loop (Moves s) [0..<nat (N s)] (pParticles s) (pRng s) of
        None \<Rightarrow> None
      | Some (ps, g) \<Rightarrow>
          (let s1 = s\<lparr>T := 0, pParticles := ps, pRng := g\<rparr>
           in if htHistoryMode s1 \<noteq> SMC_HISTORY_NONE
              then Some (s1\<lparr>nResampled := 0,
                            History := Push (N s1) (pParticles s1) 0 (historyflags 0)
                                         (Pop_all (History s1))\<rparr>)
              else Some s1))"

subsection \<open>Rollback and path sampling\<close>

text \<open>
  Both operations return the failure they throw, if any, next to the state they leave
  behind, so that what a failed call did to the sampler can be stated.
\<close>

definition IterateBack :: "('s, 'r) sampler \<Rightarrow> (failure + unit) \<times> ('s, 'r) sampler" where
  "IterateBack s =
     (if htHistoryMode s = SMC_HISTORY_NONE then (Inl SMCX_MISSING_HISTORY, s)
      else (case Pop_out (History s) of
              (None, h) \<Rightarrow> (Inr (), s\<lparr>History := h, T := T s - 1\<rparr>)
            | (Some e, h) \<Rightarrow>
                (Inr (), s\<lparr>N := number e, pParticles := particles e, nAccepted := accepted e,
                            History := h, T := T s - 1\<rparr>)))"

text \<open>
  \<open>hips\<close> is the history's own \<^verbatim>\<open>IntegratePathSampling\<close> applied to the integrand, the
  width function and the auxiliary pointer of the call (a parameter: the history class is not
  among the sources).
\<close>

definition IntegratePathSampling ::
  "('s history \<Rightarrow> double) \<Rightarrow> ('s, 'r) sampler \<Rightarrow> (failure + double) \<times> ('s, 'r) sampler" where
  "IntegratePathSampling hips s =
     (if htHistoryMode s = SMC_HISTORY_NONE then (Inl SMCX_MISSING_HISTORY, s)
      else (let h1 = Push (N s) (pParticles s) (nAccepted s) (historyflags (nResampled s)) (History s);
                dRes = hips h1;
                h2 = snd (Pop h1)
            in (Inr dRes, s\<lparr>History := h2\<rparr>)))"

subsection \<open>Moving and normalising\<close>

fun move_loop ::
  "('s, 'r) moveset \<Rightarrow> int \<Rightarrow> nat list \<Rightarrow> 's particle list \<Rightarrow> 'r \<Rightarrow> ('s particle list \<times> 'r) option" where
  "move_loop M t [] ps g = Some (ps, g)"
| "move_loop M t (i # is) ps g =
     (if i < length ps
      then (case DoMove M t (ps ! i) g of (p, g') \<Rightarrow> move_loop M t is (ps[i := p]) g')
      else None)"

definition MoveParticles :: "('s, 'r) sampler \<Rightarrow> ('s, 'r) sampler option" where
  "MoveParticles s =
     (case move_loop (Moves s) (T s + 1) [0..<nat (N s)] (pParticles s) (pRng s) of
        None \<Rightarrow> None
      | Some (ps, g) \<Rightarrow> Some (s\<lparr>pParticles := ps, pRng := g\<rparr>))"

text \<open>
  The population maximum as the source folds it: from minus infinity, with \<^verbatim>\<open>std::max\<close>,
  over the first \<open>n\<close> particles.
\<close>

definition max_fold :: "'s particle list \<Rightarrow> double" where
  "max_fold ps = foldl (\<lambda>m p. dmax m (GetLogWeight p)) MInf ps"

definition max_logweight :: "nat \<Rightarrow> 's particle list \<Rightarrow> double" where
  "max_logweight n ps = max_fold (take n ps)"

text \<open>
  The subtract-max normalisation of \<^verbatim>\<open>IterateEss\<close>: the first loop reads the first \<open>N\<close>
  particles, the second writes them, so \<open>N\<close> above the size has no defined outcome.
\<close>

definition normalise_weights :: "('s, 'r) sampler \<Rightarrow> ('s, 'r) sampler option" where
  "normalise_weights s =
     (if nat (N s) \<le> length (pParticles s)
      then (let dMaxWeight = max_logweight (nat (N s)) (pParticles s)
            in Some (s\<lparr>pParticles :=
                 map (\<lambda>p. SetLogWeight p (dsub (GetLogWeight p) dMaxWeight))
                     (take (nat (N s)) (pParticles s))
                 @ drop (nat (N s)) (pParticles s)\<rparr>))
      else None)"

text \<open>The MCMC pass: every particle is offered to the kernel; acceptances are counted.\<close>

fun mcmc_loop ::
  "('s, 'r) moveset \<Rightarrow> int \<Rightarrow> nat list \<Rightarrow> 's particle list \<Rightarrow> 'r \<Rightarrow> int
     \<Rightarrow> ('s particle list \<times> 'r \<times> int) option" where
  "mcmc_loop M t [] ps g acc = Some (ps, g, acc)"
| "mcmc_loop M t (i # is) ps g acc =
     (if i < length ps
      then (case DoMCMC M t (ps ! i) g of
              ((ok, p), g') \<Rightarrow> mcmc_loop M t is (ps[i := p]) g' (if ok then acc + 1 else acc))
      else None)"

section \<open>Resampling\<close>

subsection \<open>Child counts\<close>

text \<open>
  A log-weight read from the particle vector, \<^verbatim>\<open>pParticles[k].GetLogWeight()\<close>. The
  stratified and systematic loops of \<^verbatim>\<open>Resample\<close> advance \<^verbatim>\<open>k\<close> and read \<^verbatim>\<open>pParticles[k]\<close>
  before they test \<^verbatim>\<open>j < N\<close> again, so they read one element past the end whenever the last
  particle receives the last child.
\<close>

definition logweight_at :: "'s particle list \<Rightarrow> nat \<Rightarrow> double option" where
  "logweight_at ps k = (if k < length ps then Some (GetLogWeight (ps ! k)) else None)"

text \<open>\<^verbatim>\<open>for(i < N) dWeightSum += exp(pParticles[i].GetLogWeight())\<close>\<close>

definition weight_sum :: "arith \<Rightarrow> int \<Rightarrow> 's particle list \<Rightarrow> double option" where
  "weight_sum ar n ps =
     (if nat n \<le> length ps
      then Some (foldl (\<lambda>s p. rounded (rnd ar) (dadd s (fexp (exp_d ar) (GetLogWeight p))))
                   (Fin 0) (take (nat n) ps))
      else None)"

text \<open>Writing \<open>xs\<close> over the front of an array.\<close>

definition overwrite :: "'a list \<Rightarrow> 'a list \<Rightarrow> 'a list" where
  "overwrite xs ys = xs @ drop (length xs) ys"

text \<open>
  The inner loop of the stratified and systematic cases, which differ in one line: the
  stratified case draws a new uniform after each accepted child (\<open>redraw\<close>), the systematic
  case keeps the first one.
  \<^verbatim>\<open>while((dWeightCumulative - dRand) > ((double)j) / ((double)N) && j < N)\<close>
  \<^verbatim>\<open>  { uRSCount[k]++; j++; dRand = pRng->Uniform(0, 1.0 / ((double)N)); }\<close>
  The difference and the quotient are rounded. The counters are \<^verbatim>\<open>unsigned int\<close>: the
  increment wraps at \<open>2 ^ 32\<close>.
\<close>

function strat_inner ::
  "arith \<Rightarrow> 'r rng \<Rightarrow> bool \<Rightarrow> int \<Rightarrow> nat \<Rightarrow> double \<Rightarrow> nat \<Rightarrow> double \<Rightarrow> nat list \<Rightarrow> 'r
     \<Rightarrow> (nat \<times> double \<times> nat list \<times> 'r) option" where
  "strat_inner ar R redraw n k cum j rand cnt g =
     (if dless (rounded (rnd ar) (ddiv (of_long (int j)) (of_long n))) (rounded (rnd ar) (dsub cum rand))
         \<and> int j < n
      then (if k < length cnt
            then (case (if redraw
                        then Uniform R g (Fin 0) (rounded (rnd ar) (ddiv (Fin 1) (of_long n)))
                        else (rand, g)) of
                    (rand', g') \<Rightarrow>
                      strat_inner ar R redraw n k cum (j + 1) rand'
                        (cnt[k := (cnt ! k + 1) mod 2 ^ 32]) g')
            else None)
      else Some (j, rand, cnt, g))"
  by pat_completeness auto
termination
  by (relation "measure (\<lambda>(ar, R, redraw, n, k, cum, j, rand, cnt, g). nat (n - int j))") auto

declare strat_inner.simps [simp del]

text \<open>
  The outer loop:
  \<^verbatim>\<open>while(j < N) { <inner loop>; k++; dWeightCumulative += exp(pParticles[k].GetLogWeight()) / dWeightSum; }\<close>
  The read of \<^verbatim>\<open>pParticles[k]\<close> comes before the next test of \<^verbatim>\<open>j < N\<close>.
\<close>

function strat_outer ::
  "arith \<Rightarrow> 'r rng \<Rightarrow> bool \<Rightarrow> int \<Rightarrow> 's particle list \<Rightarrow> double \<Rightarrow> nat \<Rightarrow> nat
     \<Rightarrow> double \<Rightarrow> double \<Rightarrow> nat list \<Rightarrow> 'r \<Rightarrow> (nat list \<times> 'r) option" where
  "strat_outer ar R redraw n ps W j k cum rand cnt g =
     (if int j < n
      then (case strat_inner ar R redraw n k cum j rand cnt g of
              None \<Rightarrow> None
            | Some (j', rand', cnt', g') \<Rightarrow>
                (if k + 1 < length ps
                 then strat_outer ar R redraw n ps W j' (k + 1)
                        (rounded (rnd ar)
                           (dadd cum
                              (rounded (rnd ar)
                                 (ddiv (fexp (exp_d ar) (GetLogWeight (ps ! (k + 1)))) W))))
                        rand' cnt' g'
                 else None))
      else Some (cnt, g))"
  by pat_completeness auto
termination
  by (relation "measure (\<lambda>(ar, R, redraw, n, ps, W, j, k, cum, rand, cnt, g). length ps - k)")
    auto

declare strat_outer.simps [simp del]

text \<open>
  The stratified (\<open>redraw\<close>) and systematic cases: the weight sum, the first uniform, the
  counts cleared, the first cumulative weight \<^verbatim>\<open>exp(pParticles[0].GetLogWeight()) / dWeightSum\<close>,
  then the loops from \<open>j = 0\<close>, \<open>k = 0\<close>.
\<close>

definition stratified_counts ::
  "arith \<Rightarrow> 'r rng \<Rightarrow> bool \<Rightarrow> int \<Rightarrow> 's particle list \<Rightarrow> nat list \<Rightarrow> 'r
     \<Rightarrow> (nat list \<times> 'r) option" where
  "stratified_counts ar R redraw n ps cnt g =
     (case weight_sum ar n ps of
        None \<Rightarrow> None
      | Some dWeightSum \<Rightarrow>
          (case Uniform R g (Fin 0) (rounded (rnd ar) (ddiv (Fin 1) (of_long n))) of
             (dRand, g1) \<Rightarrow>
               (if nat n \<le> length cnt
                then (case logweight_at ps 0 of
                        None \<Rightarrow> None
                      | Some w0 \<Rightarrow>
                          strat_outer ar R redraw n ps dWeightSum 0 0
                            (rounded (rnd ar) (ddiv (fexp (exp_d ar) w0) dWeightSum)) dRand
                            (overwrite (replicate (nat n) 0) cnt) g1)
                else None)))"

text \<open>
  The residual case, second loop: the expected child number \<^verbatim>\<open>N * w / dWeightSum\<close>, its
  floor (kept in \<^verbatim>\<open>uRSIndices\<close>), the remainder (kept in \<^verbatim>\<open>dRSWeights\<close>), and the
  \<^verbatim>\<open>unsigned\<close> count of children left for the multinomial draw.
\<close>

fun residual_loop ::
  "arith \<Rightarrow> int \<Rightarrow> double \<Rightarrow> double list \<Rightarrow> nat \<Rightarrow> (double list \<times> nat list \<times> nat) option" where
  "residual_loop ar n W [] c = Some ([], [], c)"
| "residual_loop ar n W (w # ws) c =
     (let q = rounded (rnd ar) (ddiv (rounded (rnd ar) (dmul (of_long n) w)) W) in
      case floor_to_unsigned q of
        None \<Rightarrow> None
      | Some u \<Rightarrow>
          (case residual_loop ar n W ws ((c + 2 ^ 32 - u) mod 2 ^ 32) of
             None \<Rightarrow> None
           | Some (rs, us, c') \<Rightarrow>
               Some (rounded (rnd ar) (dsub q (of_long (int u))) # rs, u # us, c')))"

text \<open>
  The first part of \<^verbatim>\<open>Resample\<close>: the switch that fills \<^verbatim>\<open>uRSCount\<close>. It returns the three
  workspace arrays and the generator. The switch's default is the stratified case.
\<close>

definition Resample_counts ::
  "arith \<Rightarrow> 'r rng \<Rightarrow> ResampleType \<Rightarrow> ('s, 'r) sampler
     \<Rightarrow> (double list \<times> nat list \<times> nat list \<times> 'r) option" where
  "Resample_counts ar R lMode s =
     (let n = N s; ps = pParticles s; g = pRng s in
      case lMode of
        SMC_RESAMPLE_MULTINOMIAL \<Rightarrow>
          (if nat n \<le> length ps \<and> nat n \<le> length (dRSWeights s)
              \<and> nat n \<le> length (uRSCount s)
           then (let ws = map (GetWeight ar) (take (nat n) ps) in
                 case Multinomial R g (nat n) (nat n) ws of
                   (X, g') \<Rightarrow>
                     Some (overwrite ws (dRSWeights s), overwrite X (uRSCount s), uRSIndices s, g'))
           else None)
      | SMC_RESAMPLE_RESIDUAL \<Rightarrow>
          (if nat n \<le> length ps \<and> nat n \<le> length (dRSWeights s)
              \<and> nat n \<le> length (uRSCount s) \<and> nat n \<le> length (uRSIndices s)
           then (let ws = map (GetWeight ar) (take (nat n) ps);
                     dWeightSum = foldl (\<lambda>s w. rounded (rnd ar) (dadd s w)) (Fin 0) ws in
                 case residual_loop ar n dWeightSum ws (nat n mod 2 ^ 32) of
                   None \<Rightarrow> None
                 | Some (rs, us, uMultinomialCount) \<Rightarrow>
                     (case Multinomial R g uMultinomialCount (nat n) rs of
                        (X, g') \<Rightarrow>
                          Some (overwrite rs (dRSWeights s),
                                overwrite (map2 (\<lambda>x u. (x + u) mod 2 ^ 32) X us) (uRSCount s),
                                overwrite us (uRSIndices s), g')))
           else None)
      | SMC_RESAMPLE_SYSTEMATIC \<Rightarrow>
          (case stratified_counts ar R False n ps (uRSCount s) g of
             None \<Rightarrow> None
           | Some (cnt, g') \<Rightarrow> Some (dRSWeights s, cnt, uRSIndices s, g'))
      | _ \<Rightarrow>
          (case stratified_counts ar R True n ps (uRSCount s) g of
             None \<Rightarrow> None
           | Some (cnt, g') \<Rightarrow> Some (dRSWeights s, cnt, uRSIndices s, g')))"

subsection \<open>From counts to indices\<close>

text \<open>\<^verbatim>\<open>while(uRSCount[j] > 0) ++j;\<close> A scan that leaves the array finds no free slot.\<close>

function find_free :: "nat list \<Rightarrow> nat \<Rightarrow> nat option" where
  "find_free cnt j =
     (if j < length cnt then (if cnt ! j > 0 then find_free cnt (j + 1) else Some j) else None)"
  by pat_completeness auto
termination
  by (relation "measure (\<lambda>(cnt, j). length cnt - j)") auto

declare find_free.simps [simp del]

text \<open>
  \<^verbatim>\<open>while(uRSCount[i] > 1) { <scan>; uRSIndices[j++] = i; --uRSCount[i]; }\<close>
\<close>

function spread :: "nat \<Rightarrow> nat \<Rightarrow> nat list \<Rightarrow> nat list \<Rightarrow> (nat \<times> nat list \<times> nat list) option" where
  "spread i j cnt idx =
     (if i < length cnt \<and> cnt ! i > 1
      then (case find_free cnt j of
              None \<Rightarrow> None
            | Some j' \<Rightarrow>
                (if j' < length idx
                 then spread i (j' + 1) (cnt[i := cnt ! i - 1]) (idx[j' := i])
                 else None))
      else Some (j, cnt, idx))"
  by pat_completeness auto
termination
  by (relation "measure (\<lambda>(i, j, cnt, idx). cnt ! i)") auto

declare spread.simps [simp del]

text \<open>
  \<^verbatim>\<open>for(unsigned int i = 0, j = 0; i < N; ++i) if(uRSCount[i] > 0) { uRSIndices[i] = i; <spread> }\<close>
\<close>

fun flatten_loop ::
  "nat list \<Rightarrow> nat \<Rightarrow> nat list \<Rightarrow> nat list \<Rightarrow> (nat \<times> nat list \<times> nat list) option" where
  "flatten_loop [] j cnt idx = Some (j, cnt, idx)"
| "flatten_loop (i # is) j cnt idx =
     (if i < length cnt
      then (if cnt ! i > 0
            then (if i < length idx
                  then (case spread i j cnt (idx[i := i]) of
                          None \<Rightarrow> None
                        | Some (j', cnt', idx') \<Rightarrow> flatten_loop is j' cnt' idx')
                  else None)
            else flatten_loop is j cnt idx)
      else None)"

definition count_to_indices :: "int \<Rightarrow> nat list \<Rightarrow> nat list \<Rightarrow> (nat list \<times> nat list) option" where
  "count_to_indices n cnt idx =
     (case flatten_loop [0..<nat n] 0 cnt idx of
        None \<Rightarrow> None
      | Some (j, cnt', idx') \<Rightarrow> Some (cnt', idx'))"

text \<open>
  The layout the spec asks of the flattening, in its words: a slot whose count is at least 1
  keeps its own particle, and the surplus copies of the particles, taken in increasing order
  of the particle, fill the slots whose count is 0, taken in increasing order of the slot.
  \<open>free_slots c\<close> lists those slots, \<open>surplus c\<close> the particles that fill them, each
  particle \<open>i\<close> as often as it has copies beyond the first.
\<close>

definition free_slots :: "nat list \<Rightarrow> nat list" where
  "free_slots c = filter (\<lambda>j. c ! j = 0) [0..<length c]"

definition surplus_upto :: "nat \<Rightarrow> nat list \<Rightarrow> nat list" where
  "surplus_upto i c = concat (map (\<lambda>x. replicate (c ! x - 1) x) [0..<i])"

definition surplus :: "nat list \<Rightarrow> nat list" where
  "surplus c = surplus_upto (length c) c"

subsection \<open>Replication in place\<close>

text \<open>
  \<^verbatim>\<open>for(i < N) { if(uRSIndices[i] != i) pParticles[i].SetValue(pParticles[uRSIndices[i]].GetValue());\<close>
  \<^verbatim>\<open>             pParticles[i].SetLogWeight(0); }\<close>
\<close>

fun replicate_loop :: "nat list \<Rightarrow> nat list \<Rightarrow> 's particle list \<Rightarrow> 's particle list option" where
  "replicate_loop [] idx ps = Some ps"
| "replicate_loop (i # is) idx ps =
     (if i < length idx \<and> i < length ps
      then (if idx ! i \<noteq> i
            then (if idx ! i < length ps
                  then replicate_loop is idx
                         (ps[i := SetLogWeight (SetValue (ps ! i) (GetValue (ps ! (idx ! i)))) (Fin 0)])
                  else None)
            else replicate_loop is idx (ps[i := SetLogWeight (ps ! i) (Fin 0)]))
      else None)"

subsection \<open>Resample\<close>

text \<open>
  The particle graph (\<^verbatim>\<open>UpdateParticleGraph\<close>) is compiled only with the optional graph
  library and is left out.
\<close>

definition Resample ::
  "arith \<Rightarrow> 'r rng \<Rightarrow> ResampleType \<Rightarrow> ('s, 'r) sampler \<Rightarrow> ('s, 'r) sampler option" where
  "Resample ar R lMode s =
     (case Resample_counts ar R lMode s of
        None \<Rightarrow> None
      | Some (ws, cnt, idx, g) \<Rightarrow>
          (case count_to_indices (N s) cnt idx of
             None \<Rightarrow> None
           | Some (cnt', idx') \<Rightarrow>
               (case replicate_loop [0..<nat (N s)] idx' (pParticles s) of
                  None \<Rightarrow> None
                | Some ps \<Rightarrow>
                    Some (s\<lparr>pRng := g, dRSWeights := ws, uRSCount := cnt', uRSIndices := idx',
                           pParticles := ps\<rparr>))))"

section \<open>Sampling index vectors\<close>

text \<open>
  In \<^verbatim>\<open>SampleSystematic\<close> the cursor \<^verbatim>\<open>j\<close> is a \<^verbatim>\<open>size_t\<close> and \<^verbatim>\<open>M\<close> a \<^verbatim>\<open>long\<close>: the
  comparison \<^verbatim>\<open>j < M\<close> converts \<^verbatim>\<open>M\<close> to the unsigned type.
\<close>

definition as_size_t :: "int \<Rightarrow> nat" where
  "as_size_t m = nat (m mod 2 ^ 64)"

text \<open>
  \<^verbatim>\<open>while (dWeightCumulative > ((static_cast<double>(j) / M) + dRand) && j < M)\<close>
  \<^verbatim>\<open>  { ++uCount[i]; ++j; if (bStratified) dRand = pRng->Uniform(0, 1.0 / M); }\<close>
\<close>

function sys_inner ::
  "'r rng \<Rightarrow> bool \<Rightarrow> int \<Rightarrow> nat \<Rightarrow> double \<Rightarrow> nat \<Rightarrow> double \<Rightarrow> nat list \<Rightarrow> 'r
     \<Rightarrow> (nat \<times> double \<times> nat list \<times> 'r) option" where
  "sys_inner R bStratified m i cum j rand cnt g =
     (if dless (dadd (ddiv (of_long (int j)) (of_long m)) rand) cum \<and> j < as_size_t m
      then (if i < length cnt
            then (case (if bStratified then Uniform R g (Fin 0) (ddiv (Fin 1) (of_long m))
                        else (rand, g)) of
                    (rand', g') \<Rightarrow>
                      sys_inner R bStratified m i cum (j + 1) rand'
                        (cnt[i := (cnt ! i + 1) mod 2 ^ 32]) g')
            else None)
      else Some (j, rand, cnt, g))"
  by pat_completeness auto
termination
  by (relation "measure (\<lambda>(R, b, m, i, cum, j, rand, cnt, g). as_size_t m - j)") auto

declare sys_inner.simps [simp del]

text \<open>
  \<^verbatim>\<open>for (size_t i = 0, j = 0; i < pParticles.size() && j < M; ++i)\<close>
  \<^verbatim>\<open>  { dWeightCumulative += exp(pParticles[i].GetLogWeight()) / dWeightSum; <inner loop> }\<close>
\<close>

function sys_outer ::
  "'r rng \<Rightarrow> bool \<Rightarrow> int \<Rightarrow> 's particle list \<Rightarrow> double \<Rightarrow> nat \<Rightarrow> nat \<Rightarrow> double \<Rightarrow> double
     \<Rightarrow> nat list \<Rightarrow> 'r \<Rightarrow> (nat list \<times> 'r) option" where
  "sys_outer R bStratified m ps W i j cum rand cnt g =
     (if i < length ps \<and> j < as_size_t m
      then (let cum' = dadd cum (ddiv (dexp (GetLogWeight (ps ! i))) W) in
            case sys_inner R bStratified m i cum' j rand cnt g of
              None \<Rightarrow> None
            | Some (j', rand', cnt', g') \<Rightarrow>
                sys_outer R bStratified m ps W (i + 1) j' cum' rand' cnt' g')
      else Some (cnt, g))"
  by pat_completeness auto
termination
  by (relation "measure (\<lambda>(R, b, m, ps, W, i, j, cum, rand, cnt, g). length ps - i)") auto

declare sys_outer.simps [simp del]

text \<open>\<^verbatim>\<open>while (uCount[i] > 0) { uIndices[j++] = i; --uCount[i]; }\<close>\<close>

function fill_inner :: "nat \<Rightarrow> nat \<Rightarrow> nat list \<Rightarrow> nat list \<Rightarrow> (nat \<times> nat list \<times> nat list) option" where
  "fill_inner i j cnt idx =
     (if i < length cnt \<and> cnt ! i > 0
      then (if j < length idx
            then fill_inner i (j + 1) (cnt[i := cnt ! i - 1]) (idx[j := i])
            else None)
      else Some (j, cnt, idx))"
  by pat_completeness auto
termination
  by (relation "measure (\<lambda>(i, j, cnt, idx). cnt ! i)") auto

declare fill_inner.simps [simp del]

fun fill_loop :: "nat list \<Rightarrow> nat \<Rightarrow> nat list \<Rightarrow> nat list \<Rightarrow> nat list option" where
  "fill_loop [] j cnt idx = Some idx"
| "fill_loop (i # is) j cnt idx =
     (case fill_inner i j cnt idx of
        None \<Rightarrow> None
      | Some (j', cnt', idx') \<Rightarrow> fill_loop is j' cnt' idx')"

text \<open>
  The index vector has \<open>M\<close> elements, zero at first; a negative \<open>M\<close> makes its construction
  throw.
\<close>

definition SampleSystematic ::
  "'r rng \<Rightarrow> int \<Rightarrow> bool \<Rightarrow> ('s, 'r) sampler \<Rightarrow> (nat list \<times> 'r) option" where
  "SampleSystematic R m bStratified s =
     (let ps = pParticles s;
          dWeightSum = foldl (\<lambda>a p. dadd a (dexp (GetLogWeight p))) (Fin 0) ps in
      case Uniform R (pRng s) (Fin 0) (ddiv (Fin 1) (of_long m)) of
        (dRand, g1) \<Rightarrow>
          (case sys_outer R bStratified m ps dWeightSum 0 0 (Fin 0) dRand
                  (replicate (length ps) 0) g1 of
             None \<Rightarrow> None
           | Some (uCount, g2) \<Rightarrow>
               (if m < 0 then None
                else (case fill_loop [0..<length uCount] 0 uCount (replicate (nat m) 0) of
                        None \<Rightarrow> None
                      | Some uIndices \<Rightarrow> Some (uIndices, g2)))))"

definition SampleStratified :: "'r rng \<Rightarrow> int \<Rightarrow> ('s, 'r) sampler \<Rightarrow> (nat list \<times> 'r) option" where
  "SampleStratified R m s = SampleSystematic R m True s"

section \<open>Fribble resampling\<close>

text \<open>
  The growth step: each chosen parent is copied to the end of the population with its
  log-weight, and the copy is offered to the MCMC kernel.
\<close>

fun fribble_children ::
  "('s, 'r) moveset \<Rightarrow> int \<Rightarrow> nat list \<Rightarrow> 's particle list \<Rightarrow> 'r \<Rightarrow> ('s particle list \<times> 'r) option" where
  "fribble_children M t [] ps g = Some (ps, g)"
| "fribble_children M t (u # us) ps g =
     (if u < length ps
      then (case DoMCMC M t (new_particle (GetValue (ps ! u)) (GetLogWeight (ps ! u))) g of
              ((ok, p), g') \<Rightarrow> fribble_children M t us (ps @ [p]) g')
      else None)"

text \<open>\<^verbatim>\<open>while (dESS < dResampleThreshold) { ... dESS = GetESS(); }\<close>\<close>

partial_function (option) fribble_grow ::
  "arith \<Rightarrow> 'r rng \<Rightarrow> ('s, 'r) sampler \<Rightarrow> double \<Rightarrow> ('s, 'r) sampler option" where
  "fribble_grow ar R s dESS =
     (if dless dESS (dResampleThreshold s)
      then (case SampleStratified R (N s) s of
              None \<Rightarrow> None
            | Some (uIndices, g) \<Rightarrow>
                (case fribble_children (Moves s) (T s + 1) uIndices (pParticles s) g of
                   None \<Rightarrow> None
                 | Some (ps, g') \<Rightarrow>
                     fribble_grow ar R (s\<lparr>pParticles := ps, pRng := g'\<rparr>)
                       (GetESS ar (s\<lparr>pParticles := ps, pRng := g'\<rparr>))))
      else Some s)"

text \<open>The chosen parents replicated by value into a new vector, with log-weight zero.\<close>

fun replicate_chosen :: "nat list \<Rightarrow> 's particle list \<Rightarrow> 's particle list option" where
  "replicate_chosen [] ps = Some []"
| "replicate_chosen (u # us) ps =
     (if u < length ps
      then (case replicate_chosen us ps of
              None \<Rightarrow> None
            | Some qs \<Rightarrow> Some (new_particle (GetValue (ps ! u)) (Fin 0) # qs))
      else None)"

text \<open>
  Downsampling to \<open>N\<close> particles: the last part of \<^verbatim>\<open>ResampleFribble\<close>, and of the size test
  of \<^verbatim>\<open>IterateEssVariable\<close>.
\<close>

definition fribble_downsample :: "'r rng \<Rightarrow> ('s, 'r) sampler \<Rightarrow> ('s, 'r) sampler option" where
  "fribble_downsample R s =
     (case SampleStratified R (N s) s of
        None \<Rightarrow> None
      | Some (uIndices, g) \<Rightarrow>
          (case replicate_chosen uIndices (pParticles s) of
             None \<Rightarrow> None
           | Some ps \<Rightarrow> Some (s\<lparr>pParticles := ps, pRng := g\<rparr>)))"

text \<open>
  The assertions \<^verbatim>\<open>assert(pParticles.size() == N)\<close> open and close the function. They are
  compiled in or out (\<^verbatim>\<open>NDEBUG\<close>): \<open>asserts\<close> says which, and a failed assertion aborts.
\<close>

definition ResampleFribble ::
  "bool \<Rightarrow> arith \<Rightarrow> 'r rng \<Rightarrow> ('s, 'r) sampler \<Rightarrow> double \<Rightarrow> ('s, 'r) sampler option" where
  "ResampleFribble asserts ar R s dESS =
     (if asserts \<and> int (length (pParticles s)) \<noteq> N s then None
      else (case fribble_grow ar R s dESS of
              None \<Rightarrow> None
            | Some s1 \<Rightarrow>
                (case fribble_downsample R s1 of
                   None \<Rightarrow> None
                 | Some s2 \<Rightarrow>
                     (if asserts \<and> int (length (pParticles s2)) \<noteq> N s2 then None
                      else Some s2))))"

section \<open>Iteration\<close>

text \<open>
  \<^verbatim>\<open>IterateEss\<close>, in the order of the source. First the snapshot is pushed (when the history
  is kept), the acceptance count is reset and the particles are moved.
\<close>

definition IterateEss_move :: "('s, 'r) sampler \<Rightarrow> ('s, 'r) sampler option" where
  "IterateEss_move s =
     (let s1 = (if htHistoryMode s \<noteq> SMC_HISTORY_NONE
                then s\<lparr>History := Push (N s) (pParticles s) (nAccepted s)
                                     (historyflags (nResampled s)) (History s)\<rparr>
                else s)
      in MoveParticles (s1\<lparr>nAccepted := 0\<rparr>))"

text \<open>
  Then the weights are normalised, the effective sample size is tested and the population
  resampled if it is below the threshold, every particle is offered to the MCMC kernel unless
  the mode is fribble, and the time advances. The result is the effective sample size and the
  new state.
\<close>

definition IterateEss ::
  "bool \<Rightarrow> arith \<Rightarrow> 'r rng \<Rightarrow> ('s, 'r) sampler
     \<Rightarrow> (double \<times> ('s, 'r) sampler) option" where
  "IterateEss asserts ar R s =
     (case IterateEss_move s of
        None \<Rightarrow> None
      | Some s3 \<Rightarrow>
          (case normalise_weights s3 of
             None \<Rightarrow> None
           | Some s4 \<Rightarrow>
               (let ESS = GetESS ar s4 in
                case (if dless ESS (dResampleThreshold s4)
                      then (if rtResampleMode s4 = SMC_RESAMPLE_FRIBBLEBITS
                            then ResampleFribble asserts ar R (s4\<lparr>nResampled := 1\<rparr>) ESS
                            else Resample ar R (rtResampleMode s4) (s4\<lparr>nResampled := 1\<rparr>))
                      else Some (s4\<lparr>nResampled := 0\<rparr>)) of
                  None \<Rightarrow> None
                | Some s5 \<Rightarrow>
                    (case (if rtResampleMode s5 \<noteq> SMC_RESAMPLE_FRIBBLEBITS
                           then (case mcmc_loop (Moves s5) (T s5 + 1) [0..<nat (N s5)]
                                        (pParticles s5) (pRng s5) (nAccepted s5) of
                                   None \<Rightarrow> None
                                 | Some (ps, g, acc) \<Rightarrow>
                                     Some (s5\<lparr>pParticles := ps, pRng := g, nAccepted := acc\<rparr>))
                           else Some s5) of
                       None \<Rightarrow> None
                     | Some s6 \<Rightarrow> Some (ESS, s6\<lparr>T := T s6 + 1\<rparr>)))))"

subsection \<open>The variable-population iteration\<close>

text \<open>
  One pass through the body of the do-loop, up to the append: a fresh copy of the starting
  particles is moved, its maximum log-weight found, the accumulated population and the new
  batch rescaled, and the batch appended. The loop state is the accumulated population, the
  global maximum and the generator.
\<close>

definition fribble_batch ::
  "('s, 'r) moveset \<Rightarrow> int \<Rightarrow> int \<Rightarrow> 's particle list \<Rightarrow> 's particle list \<times> double \<times> 'r
     \<Rightarrow> ('s particle list \<times> double \<times> 'r) option" where
  "fribble_batch M t n pStartingParticles st =
     (case st of (ps, dGlobalMaxWeight, g) \<Rightarrow>
        (case move_loop M t [0..<nat n] pStartingParticles g of
           None \<Rightarrow> None
         | Some (pNewParticles, g') \<Rightarrow>
             (let dLocalMaxWeight = max_fold pNewParticles;
                  dGlobal1 = (if ps = [] then dLocalMaxWeight else dGlobalMaxWeight) in
              if dless dGlobal1 dLocalMaxWeight
              then Some (map (\<lambda>p. AddToLogWeight p (dsub dGlobal1 dLocalMaxWeight)) ps
                         @ map (\<lambda>p. AddToLogWeight p (dneg dLocalMaxWeight)) pNewParticles,
                         dLocalMaxWeight, g')
              else Some (ps @ map (\<lambda>p. AddToLogWeight p (dneg dGlobal1)) pNewParticles,
                         dGlobal1, g'))))"

text \<open>
  The do-loop: after each batch the effective sample size is computed and, when a database
  history was passed, recorded; the loop goes on while it is below the threshold and the
  population has fewer than 100000 particles.
\<close>

partial_function (option) fribble_loop ::
  "arith \<Rightarrow> ('s, 'r) moveset \<Rightarrow> int \<Rightarrow> int \<Rightarrow> 's particle list \<Rightarrow> double
     \<Rightarrow> 's particle list \<times> double \<times> 'r \<Rightarrow> double list option
     \<Rightarrow> (double \<times> 's particle list \<times> 'r \<times> double list option) option" where
  "fribble_loop ar M t n pStartingParticles threshold st database_history =
     (case fribble_batch M t n pStartingParticles st of
        None \<Rightarrow> None
      | Some (ps, dGlobalMaxWeight, g) \<Rightarrow>
          (let dESS = ess_of ar ps;
               dbh = map_option (\<lambda>h. h @ [dESS]) database_history in
           if dless dESS threshold \<and> length ps < 100000
           then fribble_loop ar M t n pStartingParticles threshold (ps, dGlobalMaxWeight, g) dbh
           else Some (dESS, ps, g, dbh)))"

text \<open>The state after \<open>k\<close> passes through the body of the loop.\<close>

fun fribble_batches ::
  "('s, 'r) moveset \<Rightarrow> int \<Rightarrow> int \<Rightarrow> 's particle list \<Rightarrow> 'r \<Rightarrow> nat
     \<Rightarrow> ('s particle list \<times> double \<times> 'r) option" where
  "fribble_batches M t n pStartingParticles g0 0 = Some ([], MInf, g0)"
| "fribble_batches M t n pStartingParticles g0 (Suc k) =
     (case fribble_batches M t n pStartingParticles g0 k of
        None \<Rightarrow> None
      | Some st \<Rightarrow> fribble_batch M t n pStartingParticles st)"

definition IterateEssVariable ::
  "bool \<Rightarrow> arith \<Rightarrow> 'r rng \<Rightarrow> double list option \<Rightarrow> ('s, 'r) sampler
     \<Rightarrow> (double \<times> double list option \<times> ('s, 'r) sampler) option" where
  "IterateEssVariable asserts ar R database_history s =
     (if asserts \<and> int (length (pParticles s)) \<noteq> N s then None
      else
        (let s1 = (if htHistoryMode s \<noteq> SMC_HISTORY_NONE
                   then s\<lparr>History := Push (N s) (pParticles s) (nAccepted s)
                                        (historyflags (nResampled s)) (History s)\<rparr>
                   else s) in
         case fribble_loop ar (Moves s1) (T s1 + 1) (N s1) (pParticles s1) (dResampleThreshold s1)
                ([], MInf, pRng s1) (map_option (\<lambda>h. []) database_history) of
           None \<Rightarrow> None
         | Some (dESS, ps, g, dbh) \<Rightarrow>
             (let s2 = s1\<lparr>pParticles := ps, pRng := g\<rparr> in
              case (if N s2 < int (length (pParticles s2))
                    then fribble_downsample R (s2\<lparr>nResampled := 1\<rparr>)
                    else Some s2) of
                None \<Rightarrow> None
              | Some s3 \<Rightarrow>
                  (case mcmc_loop (Moves s3) (T s3 + 1) [0..<nat (N s3)] (pParticles s3)
                          (pRng s3) 0 of
                     None \<Rightarrow> None
                   | Some (ps', g', acc) \<Rightarrow>
                       (let s4 = s3\<lparr>pParticles := ps', pRng := g', nAccepted := acc,
                                     T := T s3 + 1\<rparr> in
                        if asserts \<and> int (length (pParticles s4)) \<noteq> N s4 then None
                        else Some (dESS, dbh, s4))))))"

text \<open>\<^verbatim>\<open>SetResampleParams\<close>\<close>

definition SetResampleParams ::
  "ResampleType \<Rightarrow> double \<Rightarrow> ('s, 'r) sampler \<Rightarrow> ('s, 'r) sampler" where
  "SetResampleParams rtMode dThreshold s =
     s\<lparr>rtResampleMode := rtMode,
       dResampleThreshold := (if dless dThreshold (Fin 1) then dmul dThreshold (of_long (N s))
                              else dThreshold)\<rparr>"

section \<open>What resampling leaves alone\<close>

text \<open>
  Resampling changes the population, the generator and the workspace; \<open>resample_frame s s'\<close>
  says that every other member of \<open>s'\<close> is as in \<open>s\<close>.
\<close>

definition resample_frame :: "('s, 'r) sampler \<Rightarrow> ('s, 'r) sampler \<Rightarrow> bool" where
  "resample_frame s s' =
     (N s' = N s \<and> T s' = T s \<and> rtResampleMode s' = rtResampleMode s
      \<and> dResampleThreshold s' = dResampleThreshold s \<and> Moves s' = Moves s
      \<and> nAccepted s' = nAccepted s \<and> nResampled s' = nResampled s
      \<and> htHistoryMode s' = htHistoryMode s \<and> History s' = History s)"

section \<open>Example samplers\<close>

text \<open>
  Concrete move sets, generators and samplers over the state space of natural numbers, on
  which the theorems below are instantiated. The generator state is the number of draws made
  so far.
\<close>

definition idle_moves :: "(nat, nat) moveset" where
  "idle_moves =
     \<lparr>DoInit = (\<lambda>g. (new_particle 0 (Fin 0), g)),
      DoMove = (\<lambda>t p g. (p, g)),
      DoMCMC = (\<lambda>t p g. ((False, p), g))\<rparr>"

text \<open>Kernels that change what they are given: the move and the MCMC step, which always accepts.\<close>

definition busy_moves :: "(nat, nat) moveset" where
  "busy_moves =
     \<lparr>DoInit = (\<lambda>g. (new_particle 0 (Fin 0), Suc g)),
      DoMove = (\<lambda>t p g. (SetValue p (GetValue p + 1), Suc g)),
      DoMCMC = (\<lambda>t p g. ((True, SetValue p (GetValue p + 10)), Suc g))\<rparr>"

definition raw0 :: "(nat, nat) sampler" where
  "raw0 =
     \<lparr>pRng = 0, N = 0, T = 0, rtResampleMode = SMC_RESAMPLE_MULTINOMIAL,
      dResampleThreshold = Fin 0, dRSWeights = [], uRSCount = [], uRSIndices = [],
      pParticles = [], Moves = idle_moves, nAccepted = 0, nResampled = 0,
      htHistoryMode = SMC_HISTORY_NONE, History = []\<rparr>"

definition demo_rng :: "nat rng" where
  "demo_rng =
     \<lparr>Uniform = (\<lambda>g lo hi. (lo, Suc g)),
      Multinomial = (\<lambda>g n k ws.
        ((replicate k 0)[length (takeWhile (\<lambda>w. \<not> dless (Fin 0) w) ws) := n], Suc g))\<rparr>"

text \<open>
  A generator whose uniform draw is as close to the upper end of the interval as a binary64
  number can be, when that end is a power of two: the draw from \<open>[0, 1/2)\<close> is
  \<open>1/2 - 2\<^sup>-\<^sup>5\<^sup>4\<close>.
\<close>

definition edge_rng :: "nat rng" where
  "edge_rng =
     \<lparr>Uniform = (\<lambda>g lo hi. (dsub hi (ddiv hi (Fin (2 ^ 53))), Suc g)),
      Multinomial = Multinomial demo_rng\<rparr>"

text \<open>
  A sampler of as many particles as there are log-weights in the list, with the values
  \<open>0, 1, ...\<close>, the constructor's defaults and the history kept.
\<close>

definition demo_sampler :: "double list \<Rightarrow> (nat, nat) sampler" where
  "demo_sampler lws =
     \<lparr>pRng = 0, N = int (length lws), T = 0, rtResampleMode = SMC_RESAMPLE_STRATIFIED,
      dResampleThreshold = Fin (real (length lws) / 2),
      dRSWeights = replicate (length lws) (Fin 0), uRSCount = replicate (length lws) 0,
      uRSIndices = replicate (length lws) 0,
      pParticles = map2 new_particle [0..<length lws] lws, Moves = idle_moves,
      nAccepted = 0, nResampled = 0, htHistoryMode = SMC_HISTORY_RAM, History = []\<rparr>"

section \<open>Properties\<close>

subsection \<open>Construction: defaults\<close>

lemma sampler_ctor_inv:
  "sampler_ctor raw p0 g lSize htHM = Inr s \<Longrightarrow> sampler_inv s"
  by (auto simp: sampler_ctor_def sampler_inv_def split: if_splits)

lemma sampler_ctor_rng_inv:
  "sampler_ctor_rng raw p0 mk lSize htHM ty seed = Inr s \<Longrightarrow> sampler_inv s"
  by (auto simp: sampler_ctor_rng_def sampler_inv_def split: if_splits)

text \<open>
  C10. A sampler that either constructor returns has resample mode stratified, resample
  threshold \<open>0.5 * N\<close>, and three workspace arrays of \<open>N\<close> elements each.
\<close>

theorem ctor_defaults:
  "(sampler_ctor raw p0 g lSize htHM = Inr s \<longrightarrow>
      rtResampleMode s = SMC_RESAMPLE_STRATIFIED
      \<and> dResampleThreshold s = Fin (0.5 * real_of_int (N s))
      \<and> N s = lSize
      \<and> length (dRSWeights s) = nat (N s)
      \<and> length (uRSCount s) = nat (N s)
      \<and> length (uRSIndices s) = nat (N s))
   \<and> (sampler_ctor_rng raw p0 mk lSize htHM ty seed = Inr s' \<longrightarrow>
      rtResampleMode s' = SMC_RESAMPLE_STRATIFIED
      \<and> dResampleThreshold s' = Fin (0.5 * real_of_int (N s'))
      \<and> N s' = lSize
      \<and> length (dRSWeights s') = nat (N s')
      \<and> length (uRSCount s') = nat (N s')
      \<and> length (uRSIndices s') = nat (N s'))"
  by (auto simp: sampler_ctor_def sampler_ctor_rng_def of_long_def split: if_splits)

theorem ctor_defaults_witness:
  "\<exists>s s'. sampler_ctor raw0 (new_particle 0 MInf) 7 4 SMC_HISTORY_RAM = Inr s
      \<and> sampler_ctor_rng raw0 (new_particle 0 MInf) (\<lambda>ty seed. seed) 4 SMC_HISTORY_RAM () 11 = Inr s'
      \<and> rtResampleMode s = SMC_RESAMPLE_STRATIFIED \<and> dResampleThreshold s = Fin 2
      \<and> length (dRSWeights s) = 4 \<and> length (uRSCount s) = 4 \<and> length (uRSIndices s) = 4
      \<and> rtResampleMode s' = SMC_RESAMPLE_STRATIFIED \<and> dResampleThreshold s' = Fin 2
      \<and> length (dRSWeights s') = 4 \<and> length (uRSCount s') = 4 \<and> length (uRSIndices s') = 4"
proof -
  obtain s where s: "sampler_ctor raw0 (new_particle 0 MInf) 7 4 SMC_HISTORY_RAM = Inr s"
    by (simp add: sampler_ctor_def)
  obtain s' where s': "sampler_ctor_rng raw0 (new_particle 0 MInf) (\<lambda>ty seed. seed) 4
      SMC_HISTORY_RAM () 11 = Inr s'"
    by (simp add: sampler_ctor_rng_def)
  from ctor_defaults [of raw0 "new_particle 0 MInf" 7 4 SMC_HISTORY_RAM s
      "\<lambda>ty seed. seed" "()" 11 s'] s s'
  show ?thesis by simp
qed

subsection \<open>Missing history\<close>

text \<open>
  C6. \<open>IterateBack\<close> and \<open>IntegratePathSampling\<close> throw the missing-history failure exactly
  when the history mode is none, and a call that throws it leaves the sampler as it was.
\<close>

theorem missing_history_iff:
  "(fst (IterateBack s) = Inl SMCX_MISSING_HISTORY) = (htHistoryMode s = SMC_HISTORY_NONE)
   \<and> (fst (IntegratePathSampling hips s) = Inl SMCX_MISSING_HISTORY)
       = (htHistoryMode s = SMC_HISTORY_NONE)
   \<and> (fst (IterateBack s) = Inl SMCX_MISSING_HISTORY \<longrightarrow> snd (IterateBack s) = s)
   \<and> (fst (IntegratePathSampling hips s) = Inl SMCX_MISSING_HISTORY
        \<longrightarrow> snd (IntegratePathSampling hips s) = s)"
  by (auto simp: IterateBack_def IntegratePathSampling_def Let_def split: prod.splits option.splits)

theorem missing_history_iff_witness:
  "fst (IterateBack raw0) = Inl SMCX_MISSING_HISTORY
   \<and> snd (IterateBack raw0) = raw0
   \<and> fst (IntegratePathSampling (\<lambda>h. Fin 0) raw0) = Inl SMCX_MISSING_HISTORY
   \<and> snd (IntegratePathSampling (\<lambda>h. Fin 0) raw0) = raw0
   \<and> fst (IterateBack (raw0\<lparr>htHistoryMode := SMC_HISTORY_RAM\<rparr>)) = Inr ()
   \<and> fst (IntegratePathSampling (\<lambda>h. Fin 0) (raw0\<lparr>htHistoryMode := SMC_HISTORY_RAM\<rparr>)) = Inr (Fin 0)"
proof -
  have m: "htHistoryMode raw0 = SMC_HISTORY_NONE" by (simp add: raw0_def)
  have r: "fst (IterateBack (raw0\<lparr>htHistoryMode := SMC_HISTORY_RAM\<rparr>)) = Inr ()"
    by (simp add: IterateBack_def raw0_def)
  have i: "fst (IntegratePathSampling (\<lambda>h. Fin 0) (raw0\<lparr>htHistoryMode := SMC_HISTORY_RAM\<rparr>))
      = Inr (Fin 0)"
    by (simp add: IntegratePathSampling_def Let_def)
  from missing_history_iff [of raw0 "\<lambda>h. Fin 0"] m r i show ?thesis by simp
qed

subsection \<open>Effective sample size\<close>

lemma dexp_logweight: "is_logweight w \<Longrightarrow> dexp w = Fin (exp_lw w)"
  by (cases w) auto

lemma dexp2_logweight: "is_logweight w \<Longrightarrow> dexp (dmul (Fin 2) w) = Fin (exp_lw (dmul (Fin 2) w))"
  by (cases w) auto

lemma foldl_weights:
  "\<forall>p\<in>set ps. is_logweight (logweight p) \<Longrightarrow>
   foldl (\<lambda>a p. dadd a (dexp (GetLogWeight p))) (Fin a0) ps
     = Fin (a0 + (\<Sum>p\<leftarrow>ps. exp_lw (logweight p)))"
  by (induction ps arbitrary: a0) (auto simp: GetLogWeight_def dexp_logweight algebra_simps)

lemma foldl_weights2:
  "\<forall>p\<in>set ps. is_logweight (logweight p) \<Longrightarrow>
   foldl (\<lambda>a p. dadd a (dexp (dmul (Fin 2) (GetLogWeight p)))) (Fin a0) ps
     = Fin (a0 + (\<Sum>p\<leftarrow>ps. exp_lw (dmul (Fin 2) (logweight p))))"
  by (induction ps arbitrary: a0) (auto simp: GetLogWeight_def dexp2_logweight algebra_simps)

lemma exp_lw_nonneg: "0 \<le> exp_lw w"
  by (cases w) auto

lemma sum_exp_lw_pos:
  fixes f :: "double \<Rightarrow> real"
  assumes "\<And>w. 0 \<le> f w" "\<And>w. is_finite w \<Longrightarrow> 0 < f w"
  shows "\<exists>p\<in>set ps. is_finite (logweight p) \<Longrightarrow> 0 < (\<Sum>p\<leftarrow>ps. f (logweight p))"
proof (induction ps)
  case Nil
  then show ?case by simp
next
  case (Cons p ps)
  have nn: "0 \<le> (\<Sum>p\<leftarrow>ps. f (logweight p))"
    by (rule sum_list_nonneg) (auto simp: assms(1))
  show ?case
  proof (cases "is_finite (logweight p)")
    case True
    then have "0 < f (logweight p)" by (rule assms(2))
    with nn show ?thesis by simp
  next
    case False
    with Cons have "0 < (\<Sum>p\<leftarrow>ps. f (logweight p))" by auto
    then show ?thesis using assms(1) [of "logweight p"] by simp
  qed
qed

lemma exp_ess:
  fixes a b :: real
  assumes a: "0 < a" and b: "0 < b"
  shows "exp (- ln b + 2 * ln a) = a\<^sup>2 / b"
proof -
  have "exp (- ln b + 2 * ln a) = exp (- ln b) * exp (2 * ln a)" by (rule exp_add)
  also have "exp (- ln b) = 1 / b" using b by (simp add: exp_minus inverse_eq_divide)
  also have "exp (2 * ln a) = a\<^sup>2" using a by (simp only: exp_double exp_ln)
  finally show ?thesis by simp
qed

text \<open>Without rounding the operations are the exact ones.\<close>

lemma rounded_Fin: "rounded Fin d = d"
  by (cases d) (auto simp: rounded_def)

lemma fexp_exact: "fexp (\<lambda>x. Fin (exp x)) d = dexp d"
  by (cases d) (auto simp: fexp_def)

lemma flog_exact: "flog (\<lambda>x. Fin (ln x)) d = dlog d"
  by (cases d) (auto simp: flog_def)

lemma ess_of_exact:
  "ess_of exact_arith ps =
     (let sum = foldl (\<lambda>a p. dadd a (dexp (GetLogWeight p))) (Fin 0) ps;
          sumsq = foldl (\<lambda>a p. dadd a (dexp (dmul (Fin 2) (GetLogWeight p)))) (Fin 0) ps
      in dexp (dadd (dneg (dlog sumsq)) (dmul (Fin 2) (dlog sum))))"
  by (simp add: ess_of_def exact_arith_def rounded_Fin fexp_exact flog_exact)

lemma ess_of_formula:
  assumes "\<forall>p\<in>set ps. is_logweight (logweight p)" "\<exists>p\<in>set ps. is_finite (logweight p)"
  shows "ess_of exact_arith ps = Fin ((\<Sum>p\<leftarrow>ps. exp_lw (logweight p))\<^sup>2
                          / (\<Sum>p\<leftarrow>ps. exp_lw (dmul (Fin 2) (logweight p))))"
proof -
  let ?a = "\<Sum>p\<leftarrow>ps. exp_lw (logweight p)"
  let ?b = "\<Sum>p\<leftarrow>ps. exp_lw (dmul (Fin 2) (logweight p))"
  have a: "0 < ?a"
    using assms(2)
  proof (rule sum_exp_lw_pos [rotated 2])
    show "\<And>w. 0 \<le> exp_lw w" by (rule exp_lw_nonneg)
    show "\<And>w. is_finite w \<Longrightarrow> 0 < exp_lw w" by (elim is_finite.elims) auto
  qed
  have b: "0 < ?b"
    using assms(2)
  proof (rule sum_exp_lw_pos [rotated 2])
    show "\<And>w. 0 \<le> exp_lw (dmul (Fin 2) w)" by (rule exp_lw_nonneg)
    show "\<And>w. is_finite w \<Longrightarrow> 0 < exp_lw (dmul (Fin 2) w)" by (elim is_finite.elims) auto
  qed
  have "exp (- ln ?b + 2 * ln ?a) = ?a\<^sup>2 / ?b"
    using a b by (rule exp_ess)
  then show ?thesis
    using a b by (simp add: ess_of_exact foldl_weights [OF assms(1)] foldl_weights2 [OF assms(1)])
qed

text \<open>The special values under every rounding.\<close>

lemma rounded_special [simp]:
  "rounded r NaN = NaN" "rounded r MInf = MInf" "rounded r PInf = PInf" "rounded r (Fin 0) = Fin 0"
  by (simp_all add: rounded_def)

lemma fexp_special [simp]: "fexp e NaN = NaN" "fexp e MInf = Fin 0" "fexp e PInf = PInf"
  by (simp_all add: fexp_def)

lemma flog_special [simp]:
  "flog l NaN = NaN" "flog l (Fin 0) = MInf" "flog l MInf = NaN" "flog l PInf = PInf"
  by (simp_all add: flog_def)

lemma foldl_rounded_NaN: "foldl (\<lambda>s p. rounded r (dadd s (f p))) NaN ps = NaN"
  by (induction ps) auto

lemma foldl_rounded_zero:
  "\<forall>p\<in>set ps. f p = Fin 0 \<Longrightarrow> foldl (\<lambda>s p. rounded r (dadd s (f p))) (Fin 0) ps = Fin 0"
  by (induction ps) auto

lemma ess_of_all_MInf:
  assumes a: "\<forall>p\<in>set ps. logweight p = MInf"
  shows "ess_of ar ps = NaN"
proof -
  have "foldl (\<lambda>s p. rounded (rndl ar) (dadd s (fexp (exp_l ar) (GetLogWeight p)))) (Fin 0) ps
      = Fin 0"
    using a by (intro foldl_rounded_zero) (simp add: GetLogWeight_def)
  moreover have "foldl (\<lambda>s p. rounded (rndl ar)
        (dadd s (fexp (exp_l ar) (rounded (rnd ar) (dmul (Fin 2) (GetLogWeight p)))))) (Fin 0) ps
      = Fin 0"
    using a by (intro foldl_rounded_zero) (simp add: GetLogWeight_def)
  ultimately show ?thesis by (simp add: ess_of_def)
qed

lemma ess_of_all_NaN:
  assumes "\<forall>p\<in>set ps. logweight p = NaN"
  shows "ess_of ar ps = NaN"
proof (cases ps)
  case Nil
  then show ?thesis by (simp add: ess_of_def)
next
  case (Cons p qs)
  with assms show ?thesis by (simp add: ess_of_def GetLogWeight_def foldl_rounded_NaN)
qed

subsection \<open>Rounding to a format\<close>

lemma powi_powr: "(2::real) powi k = 2 powr of_int k"
  by (simp add: powr_real_of_int' power_int_def)

text \<open>A number with exponent \<open>e\<close> in the normal range is rounded at \<open>2 ^ (e - p + 1)\<close>.\<close>

lemma round_to_normal:
  assumes "2 powi e \<le> \<bar>x\<bar>" "\<bar>x\<bar> < 2 powi (e + 1)" "emin \<le> e"
  shows "round_to p emin x =
     (let q = 2 powi (e - int p + 1);
          y = of_int (round_even (x / q)) * q
      in if 2 powi (2 - emin) \<le> \<bar>y\<bar> then (if x < 0 then MInf else PInf) else Fin y)"
proof -
  have "(0::real) < 2 powi e" by simp
  with assms(1) have pos: "0 < \<bar>x\<bar>" by linarith
  then have x0: "x \<noteq> 0" by auto
  have "\<lfloor>log 2 \<bar>x\<bar>\<rfloor> = e"
    using assms(1,2) pos by (subst floor_log_eq_powr_iff) (simp_all add: powi_powr algebra_simps)
  with assms(3) have "max \<lfloor>log 2 \<bar>x\<bar>\<rfloor> emin = e" by simp
  then show ?thesis using x0 by (simp add: round_to_def Let_def)
qed

lemma round_even_small: "\<bar>x\<bar> < 1 / 2 \<Longrightarrow> round_even x = 0"
proof (cases "0 \<le> x")
  case True
  assume "\<bar>x\<bar> < 1 / 2"
  with True have "\<lfloor>x\<rfloor> = 0" by (simp add: floor_eq_iff)
  with \<open>\<bar>x\<bar> < 1 / 2\<close> True show ?thesis by (simp add: round_even_def Let_def)
next
  case False
  assume "\<bar>x\<bar> < 1 / 2"
  with False have "\<lfloor>x\<rfloor> = - 1" by (simp add: floor_eq_iff)
  with \<open>\<bar>x\<bar> < 1 / 2\<close> False show ?thesis by (simp add: round_even_def Let_def)
qed

text \<open>A number below half the least subnormal number is rounded to zero.\<close>

lemma round_to_underflow:
  assumes "x \<noteq> 0" "\<bar>x\<bar> < 2 powi (emin - int p)"
  shows "round_to p emin x = Fin 0"
proof -
  let ?q = "2 powi (emin - int p + 1) :: real"
  have pos: "0 < \<bar>x\<bar>" using assms(1) by simp
  have "(2::real) powi (emin - int p) \<le> 2 powi emin"
    by (rule power_int_increasing) simp_all
  with assms(2) have "\<bar>x\<bar> < 2 powi emin" by linarith
  then have "\<bar>x\<bar> < 2 powr of_int emin" by (simp only: powi_powr)
  then have "log 2 \<bar>x\<bar> < of_int emin" using pos by (simp add: log_less_iff)
  then have "\<lfloor>log 2 \<bar>x\<bar>\<rfloor> \<le> emin" by linarith
  then have e: "max \<lfloor>log 2 \<bar>x\<bar>\<rfloor> emin = emin" by simp
  have q: "?q = 2 * 2 powi (emin - int p)"
    by (simp add: power_int_add)
  have "\<bar>x / ?q\<bar> < 1 / 2" using assms(2) unfolding q
    by (simp add: abs_mult divide_simps)
  then have "round_even (x / ?q) = 0" by (rule round_even_small)
  moreover have "\<not> (2::real) powi (2 - emin) \<le> 0" by (simp add: not_le)
  ultimately show ?thesis using assms(1) by (simp add: round_to_def e Let_def)
qed

lemma exp_less_powi:
  assumes "x < of_int k * ln (2::real)"
  shows "\<bar>exp x\<bar> < 2 powi k"
proof -
  have "(2::real) powi k = exp (of_int k * ln 2)"
    by (simp only: powi_powr powr_def) simp
  with assms show ?thesis by simp
qed

text \<open>\<open>exp (- 20000)\<close> is below \<open>2 ^ (- 16446)\<close>: it underflows in both formats.\<close>

lemma exp_tiny:
  assumes "x \<le> - 20000"
  shows "round_to 53 (- 1022) (exp x) = Fin 0" and "round_to 64 (- 16382) (exp x) = Fin 0"
proof -
  have l: "ln (2::real) < 1" by (rule ln_2_less_1)
  have "x < of_int (- 1022 - int 53) * ln (2::real)" using l assms by simp
  then have "\<bar>exp x\<bar> < 2 powi (- 1022 - int 53)" by (rule exp_less_powi)
  then show "round_to 53 (- 1022) (exp x) = Fin 0" by (intro round_to_underflow) simp_all
  have "x < of_int (- 16382 - int 64) * ln (2::real)" using l assms by simp
  then have "\<bar>exp x\<bar> < 2 powi (- 16382 - int 64)" by (rule exp_less_powi)
  then show "round_to 64 (- 16382) (exp x) = Fin 0" by (intro round_to_underflow) simp_all
qed

text \<open>Roundings to binary64 that the examples meet. The last one is a tie.\<close>

lemma binary64_values:
  "round_to 53 (- 1022) 1 = Fin 1"
  "round_to 53 (- 1022) 2 = Fin 2"
  "round_to 53 (- 1022) (1 / 2) = Fin (1 / 2)"
  "round_to 53 (- 1022) (1 / 2 ^ 54) = Fin (1 / 2 ^ 54)"
  "round_to 53 (- 1022) (- 40000) = Fin (- 40000)"
  "round_to 53 (- 1022) (1 / 2 + 1 / 2 ^ 54) = Fin (1 / 2)"
proof -
  show "round_to 53 (- 1022) 1 = Fin 1"
    by (subst round_to_normal [where e = 0]) (simp_all add: round_even_def Let_def)
  show "round_to 53 (- 1022) 2 = Fin 2"
    by (subst round_to_normal [where e = 1]) (simp_all add: round_even_def Let_def)
  show "round_to 53 (- 1022) (1 / 2) = Fin (1 / 2)"
    by (subst round_to_normal [where e = "- 1"]) (simp_all add: round_even_def Let_def)
  show "round_to 53 (- 1022) (1 / 2 ^ 54) = Fin (1 / 2 ^ 54)"
    by (subst round_to_normal [where e = "- 54"]) (simp_all add: round_even_def Let_def)
  show "round_to 53 (- 1022) (- 40000) = Fin (- 40000)"
    by (subst round_to_normal [where e = 15]) (simp_all add: round_even_def Let_def)
  show "round_to 53 (- 1022) (1 / 2 + 1 / 2 ^ 54) = Fin (1 / 2)"
    by (subst round_to_normal [where e = "- 1"]) (simp_all add: round_even_def Let_def)
qed

subsection \<open>Loops over the population\<close>

lemma move_loop_length:
  "move_loop M t is ps g = Some (ps', g') \<Longrightarrow> length ps' = length ps"
  by (induction "is" arbitrary: ps g) (auto split: if_splits prod.splits)

lemma move_loop_Some:
  "\<forall>i\<in>set is. i < length ps \<Longrightarrow> \<exists>ps' g'. move_loop M t is ps g = Some (ps', g')"
  by (induction "is" arbitrary: ps g) (auto split: prod.splits)

lemma move_loop_bound:
  "move_loop M t is ps g = Some (ps', g') \<Longrightarrow> \<forall>i\<in>set is. i < length ps"
proof (induction "is" arbitrary: ps g)
  case Nil
  then show ?case by simp
next
  case (Cons i "is")
  from Cons.prems have i: "i < length ps" by (simp split: if_splits)
  obtain p g1 where d: "DoMove M t (ps ! i) g = (p, g1)" by (cases "DoMove M t (ps ! i) g")
  with Cons.prems i have "move_loop M t is (ps[i := p]) g1 = Some (ps', g')" by simp
  from Cons.IH [OF this] i show ?case by simp
qed

lemma mcmc_loop_Some:
  "\<forall>i\<in>set is. i < length ps \<Longrightarrow>
   \<exists>ps' g' a. mcmc_loop M t is ps g acc = Some (ps', g', a) \<and> length ps' = length ps"
proof (induction "is" arbitrary: ps g acc)
  case Nil
  then show ?case by simp
next
  case (Cons i "is")
  obtain ok p g1 where d: "DoMCMC M t (ps ! i) g = ((ok, p), g1)"
    by (metis surj_pair)
  have "\<forall>j\<in>set is. j < length (ps[i := p])" using Cons.prems by simp
  from Cons.IH [OF this, of g1 "if ok then acc + 1 else acc"] Cons.prems d
  show ?case by simp
qed

lemma mcmc_loop_length:
  "mcmc_loop M t is ps g acc = Some (ps', g', a) \<Longrightarrow> length ps' = length ps"
  by (induction "is" arbitrary: ps g acc) (auto split: if_splits prod.splits)

lemma max_fold_all_MInf: "\<forall>p\<in>set qs. logweight p = MInf \<Longrightarrow> max_fold qs = MInf"
  unfolding max_fold_def GetLogWeight_def by (induction qs) (auto simp: dmax_def)

lemma IterateEss_move_frame:
  assumes "IterateEss_move s = Some s3"
  shows "N s3 = N s" "T s3 = T s" "Moves s3 = Moves s" "rtResampleMode s3 = rtResampleMode s"
    "dResampleThreshold s3 = dResampleThreshold s" "htHistoryMode s3 = htHistoryMode s"
    "length (pParticles s3) = length (pParticles s)" "nat (N s) \<le> length (pParticles s)"
    "nAccepted s3 = 0"
    "History s3 = (if htHistoryMode s \<noteq> SMC_HISTORY_NONE
                   then Push (N s) (pParticles s) (nAccepted s) (historyflags (nResampled s))
                          (History s)
                   else History s)"
    "nResampled s3 = nResampled s"
  using assms move_loop_length move_loop_bound
  by (fastforce simp: IterateEss_move_def MoveParticles_def Let_def
      split: if_splits option.splits prod.splits)+

lemma IterateEss_all_MInf:
  assumes mv: "IterateEss_move s = Some s3"
    and len: "length (pParticles s3) = nat (N s3)"
    and allM: "\<forall>p\<in>set (pParticles s3). logweight p = MInf"
  shows "\<exists>s'. IterateEss asserts ar R s = Some (NaN, s') \<and> nResampled s' = 0"
proof -
  have mx: "max_logweight (nat (N s3)) (pParticles s3) = MInf"
    using allM len by (simp add: max_logweight_def max_fold_all_MInf)
  define s4 where
    "s4 = s3\<lparr>pParticles := map (\<lambda>p. SetLogWeight p (dsub (GetLogWeight p) MInf)) (pParticles s3)\<rparr>"
  have n4: "normalise_weights s3 = Some s4"
    by (simp add: normalise_weights_def len mx s4_def Let_def)
  have allN: "\<forall>p\<in>set (pParticles s4). logweight p = NaN"
    using allM by (auto simp: s4_def SetLogWeight_def GetLogWeight_def dsub_def)
  have ess: "GetESS ar s4 = NaN" unfolding GetESS_def using allN by (rule ess_of_all_NaN)
  have f4: "N s4 = N s3" "length (pParticles s4) = nat (N s3)"
    by (simp_all add: s4_def len)
  obtain ps' g' a where mc: "mcmc_loop (Moves s4) (T s4 + 1) [0..<nat (N s3)] (pParticles s4)
      (pRng s4) (nAccepted (s4\<lparr>nResampled := 0\<rparr>)) = Some (ps', g', a)"
    using mcmc_loop_Some [of "[0..<nat (N s3)]" "pParticles s4"] f4 by fastforce
  show ?thesis
    unfolding IterateEss_def
    using mv n4 ess mc f4
    by (auto simp: Let_def)
qed

lemma demo2_particles:
  "pParticles (demo_sampler [a, b]) = [new_particle 0 a, new_particle 1 b]"
  by (simp add: demo_sampler_def upt_rec)

text \<open>
  C4, as the code has it. In exact arithmetic the expression that \<open>GetESS\<close> evaluates is
  \<open>(\<Sum> exp w)\<^sup>2 / \<Sum> exp (2 w)\<close>, when every log-weight is a real number or minus infinity
  and at least one is a real number; the code rounds every operation, so what it returns is
  that value only as far as the roundings, overflow and underflow allow. When every particle
  has log-weight minus infinity, both sums are zero under every arithmetic and the value
  returned is NaN; in \<open>IterateEss\<close> the normalisation has already turned every log-weight into
  NaN then, the effective sample size is NaN, the test against the threshold is false, and
  the iteration ends with \<open>nResampled = 0\<close>.
\<close>

theorem GetESS_formula:
  "((\<forall>p\<in>set (pParticles s). is_logweight (logweight p))
      \<and> (\<exists>p\<in>set (pParticles s). is_finite (logweight p)) \<longrightarrow>
      GetESS exact_arith s = Fin ((\<Sum>p\<leftarrow>pParticles s. exp_lw (logweight p))\<^sup>2
                      / (\<Sum>p\<leftarrow>pParticles s. exp_lw (dmul (Fin 2) (logweight p)))))
   \<and> ((\<forall>p\<in>set (pParticles s). logweight p = MInf) \<longrightarrow> GetESS ar s = NaN)
   \<and> (IterateEss_move s = Some s3 \<and> length (pParticles s3) = nat (N s3)
        \<and> (\<forall>p\<in>set (pParticles s3). logweight p = MInf) \<longrightarrow>
        (\<exists>s'. IterateEss asserts ar R s = Some (NaN, s') \<and> nResampled s' = 0))"
  using ess_of_formula [of "pParticles s"] ess_of_all_MInf [of "pParticles s" ar]
    IterateEss_all_MInf [of s s3 asserts ar R]
  unfolding GetESS_def by blast

theorem GetESS_formula_witness:
  "GetESS exact_arith (demo_sampler [Fin 0, MInf]) = Fin 1
   \<and> GetESS x86_arith (demo_sampler [MInf, MInf]) = NaN
   \<and> IterateEss_move (demo_sampler [MInf, MInf])
       = Some (demo_sampler [MInf, MInf]
                \<lparr>History := Push 2 (pParticles (demo_sampler [MInf, MInf])) 0 False []\<rparr>)
   \<and> (\<exists>s'. IterateEss True x86_arith demo_rng (demo_sampler [MInf, MInf]) = Some (NaN, s')
          \<and> nResampled s' = 0)"
proof -
  let ?s = "demo_sampler [Fin 0, MInf]" and ?d = "demo_sampler [MInf, MInf]"
  let ?d3 = "?d\<lparr>History := Push 2 (pParticles ?d) 0 False []\<rparr>"
  have s1: "\<forall>p\<in>set (pParticles ?s). is_logweight (logweight p)"
    and s2: "\<exists>p\<in>set (pParticles ?s). is_finite (logweight p)"
    by (simp_all add: demo2_particles new_particle_def)
  have d1: "\<forall>p\<in>set (pParticles ?d). logweight p = MInf"
    by (simp add: demo2_particles new_particle_def)
  have mv: "IterateEss_move ?d = Some ?d3"
    by (simp add: IterateEss_move_def MoveParticles_def demo_sampler_def idle_moves_def
        historyflags_def upt_rec)
  have d3: "length (pParticles ?d3) = nat (N ?d3)" "\<forall>p\<in>set (pParticles ?d3). logweight p = MInf"
    by (simp_all add: demo_sampler_def new_particle_def upt_rec)
  from GetESS_formula [of ?s] s1 s2
  have "GetESS exact_arith ?s = Fin ((\<Sum>p\<leftarrow>pParticles ?s. exp_lw (logweight p))\<^sup>2
                      / (\<Sum>p\<leftarrow>pParticles ?s. exp_lw (dmul (Fin 2) (logweight p))))"
    by blast
  then have a: "GetESS exact_arith ?s = Fin 1" by (simp add: demo2_particles new_particle_def)
  from GetESS_formula [of ?d x86_arith ?d3 True demo_rng] d1 mv d3
  have b: "GetESS x86_arith ?d = NaN"
    and c: "\<exists>s'. IterateEss True x86_arith demo_rng ?d = Some (NaN, s') \<and> nResampled s' = 0"
    by blast+
  from a b mv c show ?thesis by blast
qed

text \<open>
  The claim as stated fails on a population whose log-weights are all minus infinity: the
  effective sample size is NaN, not 0, and the iteration does not resample.
\<close>

theorem GetESS_all_minus_infinity_counterexample:
  "GetESS x86_arith (demo_sampler [MInf, MInf]) = NaN
   \<and> map_option (\<lambda>(e, s'). (e, nResampled s'))
       (IterateEss True x86_arith demo_rng (demo_sampler [MInf, MInf])) = Some (NaN, 0)"
  by (simp add: IterateEss_def IterateEss_move_def MoveParticles_def normalise_weights_def
      demo_sampler_def max_logweight_def max_fold_def upt_rec idle_moves_def dmax_def
      new_particle_def GetLogWeight_def SetLogWeight_def dsub_def Let_def GetESS_def ess_of_def)

text \<open>
  Rounding shows in the value returned. With two particles of log-weight \<open>- 20000\<close> the
  formula gives 2; on the platform \<open>x86_arith\<close> both exponentials underflow to zero, and the
  value returned is NaN.
\<close>

lemma GetESS_underflow:
  "GetESS x86_arith (demo_sampler [Fin (- 20000), Fin (- 20000)]) = NaN"
  by (simp add: GetESS_def ess_of_def demo2_particles new_particle_def GetLogWeight_def
      x86_arith_def fexp_def rounded_def exp_tiny binary64_values Let_def)

subsection \<open>The subtract-max normalisation\<close>

lemma dmax_simps:
  "dmax MInf MInf = MInf" "dmax MInf (Fin x) = Fin x" "dmax (Fin x) MInf = Fin x"
  "dmax (Fin x) (Fin y) = Fin (max x y)"
  by (auto simp: dmax_def max_def)

lemma foldl_dmax_Fin:
  assumes "\<forall>p\<in>set ps. is_logweight (logweight p)" "is_logweight acc"
  shows "foldl (\<lambda>m p. dmax m (logweight p)) acc ps = Fin m \<longleftrightarrow>
         ((acc = Fin m \<or> (\<exists>p\<in>set ps. logweight p = Fin m))
          \<and> (\<forall>x. acc = Fin x \<longrightarrow> x \<le> m)
          \<and> (\<forall>p\<in>set ps. \<forall>x. logweight p = Fin x \<longrightarrow> x \<le> m))"
  using assms
proof (induction ps arbitrary: acc)
  case Nil
  then show ?case by auto
next
  case (Cons p ps)
  from Cons.prems have lp: "is_logweight (logweight p)" by simp
  from Cons.prems have "\<forall>p\<in>set ps. is_logweight (logweight p)" by simp
  note IH = Cons.IH [OF this]
  show ?case
    using lp Cons.prems(2)
    apply (cases acc; cases "logweight p"; simp add: IH dmax_simps)
    apply (auto simp: max_def)
    done
qed

lemma max_fold_Fin:
  assumes "\<forall>p\<in>set ps. is_logweight (logweight p)"
  shows "max_fold ps = Fin m \<longleftrightarrow>
         ((\<exists>p\<in>set ps. logweight p = Fin m)
          \<and> (\<forall>p\<in>set ps. \<forall>x. logweight p = Fin x \<longrightarrow> x \<le> m))"
  unfolding max_fold_def GetLogWeight_def
  by (subst foldl_dmax_Fin [OF assms]) auto

lemma foldl_dmax_finite:
  assumes "\<forall>p\<in>set ps. is_logweight (logweight p)" "is_logweight acc"
    "is_finite acc \<or> (\<exists>p\<in>set ps. is_finite (logweight p))"
  shows "is_finite (foldl (\<lambda>m p. dmax m (logweight p)) acc ps)"
  using assms
proof (induction ps arbitrary: acc)
  case Nil
  then show ?case by simp
next
  case (Cons p ps)
  from Cons.prems have tl: "\<forall>p\<in>set ps. is_logweight (logweight p)"
    and lp: "is_logweight (logweight p)" by simp_all
  show ?case
    using lp Cons.prems(2,3) Cons.IH [OF tl]
    by (cases acc; cases "logweight p") (auto simp: dmax_simps)
qed

lemma max_fold_finite:
  assumes "\<forall>p\<in>set ps. is_logweight (logweight p)" "\<exists>p\<in>set ps. is_finite (logweight p)"
  shows "\<exists>m. max_fold ps = Fin m"
proof -
  have "is_finite (max_fold ps)"
    unfolding max_fold_def GetLogWeight_def using assms by (intro foldl_dmax_finite) auto
  then show ?thesis by (cases "max_fold ps") auto
qed

text \<open>Subtracting the finite maximum leaves the maximum at zero.\<close>

lemma max_fold_shift:
  assumes lw: "\<forall>p\<in>set ps. is_logweight (logweight p)" and mx: "max_fold ps = Fin m"
  shows "max_fold (map (\<lambda>p. SetLogWeight p (dsub (GetLogWeight p) (Fin m))) ps) = Fin 0"
    and "\<forall>p\<in>set (map (\<lambda>p. SetLogWeight p (dsub (GetLogWeight p) (Fin m))) ps).
           is_logweight (logweight p)"
proof -
  let ?f = "\<lambda>p. SetLogWeight p (dsub (GetLogWeight p) (Fin m))"
  have f: "\<And>p. is_logweight (logweight p) \<Longrightarrow>
      logweight (?f p) = (case logweight p of Fin x \<Rightarrow> Fin (x - m) | _ \<Rightarrow> MInf)"
    subgoal for p
      by (cases "logweight p") (auto simp: SetLogWeight_def GetLogWeight_def dsub_def)
    done
  show l': "\<forall>p\<in>set (map ?f ps). is_logweight (logweight p)"
    using lw by (auto simp: f split: double.splits)
  from mx have ex: "\<exists>p\<in>set ps. logweight p = Fin m"
    and ub: "\<forall>p\<in>set ps. \<forall>x. logweight p = Fin x \<longrightarrow> x \<le> m"
    unfolding max_fold_Fin [OF lw] by blast+
  from ex obtain p where p: "p \<in> set ps" "logweight p = Fin m" by blast
  then have "logweight (?f p) = Fin 0" using lw by (simp add: f)
  with p have ex': "\<exists>q\<in>set (map ?f ps). logweight q = Fin 0" by force
  have ub': "\<forall>q\<in>set (map ?f ps). \<forall>x. logweight q = Fin x \<longrightarrow> x \<le> 0"
  proof (intro ballI allI impI)
    fix q x assume q: "q \<in> set (map ?f ps)" and x: "logweight q = Fin x"
    from q obtain p where p: "p \<in> set ps" "q = ?f p" by auto
    with lw have "is_logweight (logweight p)" by blast
    with x p ub show "x \<le> 0"
      by (cases "logweight p") (auto simp: f)
  qed
  show "max_fold (map ?f ps) = Fin 0"
    unfolding max_fold_Fin [OF l'] using ex' ub' by blast
qed

text \<open>
  C8, as the code has it. When, after the move of an \<open>IterateEss\<close> call, the log-weights of
  the \<open>N\<close> particles are real numbers or minus infinity and at least one is a real number,
  the normalisation step returns and the maximum log-weight over the \<open>N\<close> particles is 0
  right after it.
\<close>

theorem normalise_max_zero:
  assumes "IterateEss_move s = Some s3"
    and "\<forall>p\<in>set (take (nat (N s3)) (pParticles s3)). is_logweight (logweight p)"
    and "\<exists>p\<in>set (take (nat (N s3)) (pParticles s3)). is_finite (logweight p)"
  shows "\<exists>s4. normalise_weights s3 = Some s4
           \<and> max_logweight (nat (N s4)) (pParticles s4) = Fin 0"
proof -
  let ?n = "nat (N s3)"
  from IterateEss_move_frame [OF assms(1)] have n: "?n \<le> length (pParticles s3)" by simp
  from max_fold_finite [OF assms(2,3)] obtain m where m: "max_fold (take ?n (pParticles s3)) = Fin m"
    by blast
  let ?f = "\<lambda>p. SetLogWeight p (dsub (GetLogWeight p) (Fin m))"
  let ?s4 = "s3\<lparr>pParticles := map ?f (take ?n (pParticles s3)) @ drop ?n (pParticles s3)\<rparr>"
  have "normalise_weights s3 = Some ?s4"
    using n m by (simp add: normalise_weights_def max_logweight_def Let_def)
  moreover have "max_logweight (nat (N ?s4)) (pParticles ?s4) = Fin 0"
    using n max_fold_shift(1) [OF assms(2) m] by (simp add: max_logweight_def)
  ultimately show ?thesis by blast
qed

theorem normalise_max_zero_witness:
  "IterateEss_move (demo_sampler [Fin (- 3), MInf])
     = Some (demo_sampler [Fin (- 3), MInf]
              \<lparr>History := Push 2 (pParticles (demo_sampler [Fin (- 3), MInf])) 0 False []\<rparr>)
   \<and> list_all (\<lambda>p. is_logweight (logweight p)) (pParticles (demo_sampler [Fin (- 3), MInf]))
   \<and> list_ex (\<lambda>p. is_finite (logweight p)) (pParticles (demo_sampler [Fin (- 3), MInf]))
   \<and> (\<exists>s4. normalise_weights (demo_sampler [Fin (- 3), MInf]
              \<lparr>History := Push 2 (pParticles (demo_sampler [Fin (- 3), MInf])) 0 False []\<rparr>)
            = Some s4
          \<and> max_logweight (nat (N s4)) (pParticles s4) = Fin 0)"
proof -
  let ?s = "demo_sampler [Fin (- 3), MInf]"
  let ?s3 = "?s\<lparr>History := Push 2 (pParticles ?s) 0 False []\<rparr>"
  have mv: "IterateEss_move ?s = Some ?s3"
    by (simp add: IterateEss_move_def MoveParticles_def demo_sampler_def idle_moves_def
        historyflags_def upt_rec)
  have h1: "\<forall>p\<in>set (take (nat (N ?s3)) (pParticles ?s3)). is_logweight (logweight p)"
    and h2: "\<exists>p\<in>set (take (nat (N ?s3)) (pParticles ?s3)). is_finite (logweight p)"
    by (simp_all add: demo_sampler_def new_particle_def upt_rec)
  have h3: "list_all (\<lambda>p. is_logweight (logweight p)) (pParticles ?s)"
    and h4: "list_ex (\<lambda>p. is_finite (logweight p)) (pParticles ?s)"
    by (simp_all add: demo_sampler_def new_particle_def upt_rec)
  from normalise_max_zero [OF mv h1 h2] mv h3 h4 show ?thesis by blast
qed

text \<open>
  The claim as stated fails when every particle has log-weight minus infinity after the
  move: the maximum is minus infinity, the subtraction turns every log-weight into NaN, and the
  maximum the source would compute over them is minus infinity, not 0.
\<close>

theorem normalise_max_zero_counterexample:
  "map_option (\<lambda>s'. (max_logweight (nat (N s')) (pParticles s'), map logweight (pParticles s')))
     (case IterateEss_move (demo_sampler [MInf, MInf]) of
        None \<Rightarrow> None | Some s3 \<Rightarrow> normalise_weights s3)
   = Some (MInf, [NaN, NaN])"
  by (simp add: IterateEss_move_def MoveParticles_def idle_moves_def
      normalise_weights_def demo_sampler_def max_logweight_def max_fold_def upt_rec
      new_particle_def GetLogWeight_def SetLogWeight_def dsub_def dmax_def Let_def)

subsection \<open>Resampling: the frame, the size and the log-weights\<close>

lemma resample_frame_refl: "resample_frame s s"
  by (simp add: resample_frame_def)

lemma resample_frame_trans:
  "resample_frame s s' \<Longrightarrow> resample_frame s' s'' \<Longrightarrow> resample_frame s s''"
  by (simp add: resample_frame_def)

lemma replicate_loop_post:
  "replicate_loop is idx ps = Some ps' \<Longrightarrow>
   length ps' = length ps
   \<and> (\<forall>x<length ps. x \<in> set is \<or> logweight (ps ! x) = Fin 0 \<longrightarrow> logweight (ps' ! x) = Fin 0)"
proof (induction "is" arbitrary: ps)
  case Nil
  then show ?case by simp
next
  case (Cons i "is")
  from Cons.prems have i: "i < length ps" by (simp split: if_splits)
  define q where "q = (if idx ! i \<noteq> i
      then SetLogWeight (SetValue (ps ! i) (GetValue (ps ! (idx ! i)))) (Fin 0)
      else SetLogWeight (ps ! i) (Fin 0))"
  have q: "logweight q = Fin 0" by (simp add: q_def SetLogWeight_def)
  from Cons.prems have r: "replicate_loop is idx (ps[i := q]) = Some ps'"
    by (auto simp: q_def split: if_splits)
  from Cons.IH [OF r] have len: "length ps' = length ps"
    and IH: "\<forall>x<length ps. x \<in> set is \<or> logweight (ps[i := q] ! x) = Fin 0
               \<longrightarrow> logweight (ps' ! x) = Fin 0"
    by simp_all
  show ?case
  proof (intro conjI allI impI)
    show "length ps' = length ps" by (rule len)
  next
    fix x assume x: "x < length ps" and h: "x \<in> set (i # is) \<or> logweight (ps ! x) = Fin 0"
    show "logweight (ps' ! x) = Fin 0"
    proof (cases "x = i")
      case True
      then have "logweight (ps[i := q] ! x) = Fin 0" using q i by simp
      with IH x show ?thesis by blast
    next
      case False
      then have "ps[i := q] ! x = ps ! x" by simp
      with IH x h False show ?thesis by auto
    qed
  qed
qed

lemma replicate_loop_bound:
  "replicate_loop is idx ps = Some ps' \<Longrightarrow> \<forall>i\<in>set is. i < length ps"
proof (induction "is" arbitrary: ps)
  case Nil
  then show ?case by simp
next
  case (Cons i "is")
  from Cons.prems have i: "i < length ps" by (simp split: if_splits)
  from Cons.prems obtain q where "replicate_loop is idx (ps[i := q]) = Some ps'"
    by (auto split: if_splits)
  from Cons.IH [OF this] i show ?case by simp
qed

lemma Resample_post:
  assumes "Resample ar R lMode s = Some s'"
  shows "resample_frame s s'" "length (pParticles s') = length (pParticles s)"
    "nat (N s) \<le> length (pParticles s)"
    "\<forall>x<nat (N s). logweight (pParticles s' ! x) = Fin 0"
proof -
  from assms obtain ws cnt idx g cnt' idx' ps where
    r: "replicate_loop [0..<nat (N s)] idx' (pParticles s) = Some ps"
    and s': "s' = s\<lparr>pRng := g, dRSWeights := ws, uRSCount := cnt', uRSIndices := idx',
                    pParticles := ps\<rparr>"
    by (auto simp: Resample_def split: option.splits prod.splits)
  show "resample_frame s s'" by (simp add: s' resample_frame_def)
  from replicate_loop_post [OF r] show "length (pParticles s') = length (pParticles s)"
    by (simp add: s')
  from replicate_loop_bound [OF r] show n: "nat (N s) \<le> length (pParticles s)"
    by (cases "nat (N s)") auto
  from replicate_loop_post [OF r] n
  show "\<forall>x<nat (N s). logweight (pParticles s' ! x) = Fin 0"
    by (simp add: s')
qed

lemma fill_inner_length:
  "fill_inner i j cnt idx = Some (j', cnt', idx') \<Longrightarrow> length idx' = length idx"
proof (induction i j cnt idx rule: fill_inner.induct)
  case (1 i j cnt idx)
  show ?case
  proof (cases "i < length cnt \<and> cnt ! i > 0")
    case True
    with "1.prems" have j: "j < length idx"
      by (subst (asm) fill_inner.simps) (simp split: if_splits)
    with True "1.prems"
    have "fill_inner i (j + 1) (cnt[i := cnt ! i - 1]) (idx[j := i]) = Some (j', cnt', idx')"
      by (subst (asm) fill_inner.simps) simp
    from "1.IH" [OF True j this] show ?thesis by simp
  next
    case False
    with "1.prems" show ?thesis by (subst (asm) fill_inner.simps) auto
  qed
qed

lemma fill_loop_length:
  "fill_loop is j cnt idx = Some idx' \<Longrightarrow> length idx' = length idx"
proof (induction "is" arbitrary: j cnt idx)
  case Nil
  then show ?case by simp
next
  case (Cons i "is")
  from Cons.prems obtain j1 cnt1 idx1 where
    f: "fill_inner i j cnt idx = Some (j1, cnt1, idx1)"
    and r: "fill_loop is j1 cnt1 idx1 = Some idx'"
    by (auto split: option.splits)
  from Cons.IH [OF r] fill_inner_length [OF f] show ?case by simp
qed

lemma SampleSystematic_length:
  assumes "SampleSystematic R m b s = Some (uIndices, g)"
  shows "0 \<le> m \<and> length uIndices = nat m"
proof -
  from assms obtain uCount where m: "\<not> m < 0"
    and f: "fill_loop [0..<length uCount] 0 uCount (replicate (nat m) 0) = Some uIndices"
    unfolding SampleSystematic_def Let_def
    by (simp split: prod.splits option.splits if_splits)
  from fill_loop_length [OF f] m show ?thesis by simp
qed

lemma replicate_chosen_post:
  "replicate_chosen us ps = Some qs \<Longrightarrow>
   length qs = length us \<and> (\<forall>q\<in>set qs. logweight q = Fin 0)"
  by (induction us arbitrary: qs)
     (auto simp: new_particle_def split: if_splits option.splits)

lemma fribble_downsample_post:
  assumes "fribble_downsample R s = Some s'"
  shows "resample_frame s s'" "int (length (pParticles s')) = N s'"
    "\<forall>p\<in>set (pParticles s'). logweight p = Fin 0"
proof -
  from assms obtain uI g ps where
    u: "SampleStratified R (N s) s = Some (uI, g)"
    and c: "replicate_chosen uI (pParticles s) = Some ps"
    and s': "s' = s\<lparr>pParticles := ps, pRng := g\<rparr>"
    by (auto simp: fribble_downsample_def split: option.splits prod.splits)
  show "resample_frame s s'" by (simp add: s' resample_frame_def)
  from SampleSystematic_length [OF u [unfolded SampleStratified_def]] replicate_chosen_post [OF c]
  show "int (length (pParticles s')) = N s'" "\<forall>p\<in>set (pParticles s'). logweight p = Fin 0"
    by (simp_all add: s')
qed

lemma fribble_grow_frame:
  assumes "fribble_grow ar R s dESS = Some s'"
  shows "resample_frame s s'"
proof (rule fribble_grow.raw_induct [where P = "\<lambda>ar R s dESS s'. resample_frame s s'",
      OF _ assms], goal_cases)
  case (1 grow ar R s dESS s')
  show ?case
  proof (cases "dless dESS (dResampleThreshold s)")
    case False
    with 1(2) show ?thesis by (simp add: resample_frame_refl)
  next
    case True
    with 1(2) obtain ps g' where
      "grow ar R (s\<lparr>pParticles := ps, pRng := g'\<rparr>)
         (GetESS ar (s\<lparr>pParticles := ps, pRng := g'\<rparr>)) = Some s'"
      by (auto split: option.splits prod.splits)
    from 1(1) [OF this] show ?thesis by (simp add: resample_frame_def)
  qed
qed

lemma ResampleFribble_post:
  assumes "ResampleFribble asserts ar R s dESS = Some s'"
  shows "resample_frame s s'" "int (length (pParticles s')) = N s'"
    "\<forall>p\<in>set (pParticles s'). logweight p = Fin 0"
proof -
  from assms obtain s1 where g: "fribble_grow ar R s dESS = Some s1"
    and d: "fribble_downsample R s1 = Some s'"
    by (auto simp: ResampleFribble_def split: option.splits if_splits)
  from fribble_grow_frame [OF g] fribble_downsample_post(1) [OF d]
  show "resample_frame s s'" by (rule resample_frame_trans)
  from fribble_downsample_post(2,3) [OF d]
  show "int (length (pParticles s')) = N s'" "\<forall>p\<in>set (pParticles s'). logweight p = Fin 0"
    by simp_all
qed

subsection \<open>Iterations: the frame and the size\<close>

lemma normalise_weights_post:
  assumes "normalise_weights s = Some s'"
  shows "resample_frame s s'" "length (pParticles s') = length (pParticles s)"
    "pRng s' = pRng s"
  using assms
  by (auto simp: normalise_weights_def resample_frame_def Let_def split: if_splits)

lemma IterateEss_post:
  assumes it: "IterateEss asserts ar R s = Some (ESS, s')"
  shows "N s' = N s" "T s' = T s + 1" "htHistoryMode s' = htHistoryMode s"
    "History s' = (if htHistoryMode s \<noteq> SMC_HISTORY_NONE
                   then Push (N s) (pParticles s) (nAccepted s) (historyflags (nResampled s))
                          (History s)
                   else History s)"
    "int (length (pParticles s)) = N s \<Longrightarrow> int (length (pParticles s')) = N s'"
proof -
  from it obtain s3 s4 s5 s6 where
    mv: "IterateEss_move s = Some s3"
    and nm: "normalise_weights s3 = Some s4"
    and rs: "(if dless (GetESS ar s4) (dResampleThreshold s4)
              then (if rtResampleMode s4 = SMC_RESAMPLE_FRIBBLEBITS
                    then ResampleFribble asserts ar R (s4\<lparr>nResampled := 1\<rparr>) (GetESS ar s4)
                    else Resample ar R (rtResampleMode s4) (s4\<lparr>nResampled := 1\<rparr>))
              else Some (s4\<lparr>nResampled := 0\<rparr>)) = Some s5"
    and mc: "(if rtResampleMode s5 \<noteq> SMC_RESAMPLE_FRIBBLEBITS
              then (case mcmc_loop (Moves s5) (T s5 + 1) [0..<nat (N s5)]
                           (pParticles s5) (pRng s5) (nAccepted s5) of
                      None \<Rightarrow> None
                    | Some (ps, g, acc) \<Rightarrow>
                        Some (s5\<lparr>pParticles := ps, pRng := g, nAccepted := acc\<rparr>))
              else Some s5) = Some s6"
    and s': "s' = s6\<lparr>T := T s6 + 1\<rparr>"
    unfolding IterateEss_def Let_def by (auto split: option.splits)
  note f3 = IterateEss_move_frame [OF mv]
  note f4 = normalise_weights_post [OF nm]
  have f5: "N s5 = N s4 \<and> T s5 = T s4 \<and> htHistoryMode s5 = htHistoryMode s4
      \<and> History s5 = History s4
      \<and> (int (length (pParticles s4)) = N s4 \<longrightarrow> int (length (pParticles s5)) = N s5)"
  proof (cases "dless (GetESS ar s4) (dResampleThreshold s4)")
    case False
    with rs show ?thesis by auto
  next
    case True
    show ?thesis
    proof (cases "rtResampleMode s4 = SMC_RESAMPLE_FRIBBLEBITS")
      case True
      with \<open>dless (GetESS ar s4) (dResampleThreshold s4)\<close> rs
      have "ResampleFribble asserts ar R (s4\<lparr>nResampled := 1\<rparr>) (GetESS ar s4) = Some s5" by simp
      from ResampleFribble_post(1,2) [OF this] show ?thesis
        by (simp add: resample_frame_def)
    next
      case False
      with \<open>dless (GetESS ar s4) (dResampleThreshold s4)\<close> rs
      have "Resample ar R (rtResampleMode s4) (s4\<lparr>nResampled := 1\<rparr>) = Some s5" by simp
      from Resample_post(1,2) [OF this] show ?thesis
        by (simp add: resample_frame_def)
    qed
  qed
  have f6: "N s6 = N s5 \<and> T s6 = T s5 \<and> htHistoryMode s6 = htHistoryMode s5
      \<and> History s6 = History s5 \<and> length (pParticles s6) = length (pParticles s5)"
    using mc by (auto split: if_splits option.splits dest: mcmc_loop_length)
  show "N s' = N s" "T s' = T s + 1" "htHistoryMode s' = htHistoryMode s"
    using f3 f4(1) f5 f6 by (simp_all add: s' resample_frame_def)
  show "History s' = (if htHistoryMode s \<noteq> SMC_HISTORY_NONE
                   then Push (N s) (pParticles s) (nAccepted s) (historyflags (nResampled s))
                          (History s)
                   else History s)"
    using f3(10) f4(1) f5 f6 by (simp add: s' resample_frame_def)
  show "int (length (pParticles s)) = N s \<Longrightarrow> int (length (pParticles s')) = N s'"
    using f3 f4 f5 f6 by (simp add: s' resample_frame_def)
qed

text \<open>
  C5. With the history kept and a population of \<open>N\<close> particles, an \<open>IterateEss\<close> call that did
  not resample followed by \<open>IterateBack\<close> restores \<open>N\<close>, the particle vector and \<open>nAccepted\<close> to
  what they were before the iteration, and brings \<open>T\<close> back to its value before it.
\<close>

theorem history_round_trip:
  assumes "htHistoryMode s \<noteq> SMC_HISTORY_NONE"
    and "int (length (pParticles s)) = N s"
    and "IterateEss asserts ar R s = Some (ESS, s1)"
    and "nResampled s1 = 0"
  shows "\<exists>s2. IterateBack s1 = (Inr (), s2)
           \<and> N s2 = N s \<and> pParticles s2 = pParticles s \<and> nAccepted s2 = nAccepted s
           \<and> T s2 = T s"
  using assms(1,2) IterateEss_post(1-4) [OF assms(3)]
  by (auto simp: IterateBack_def Push_def)

lemma round_to_zero: "round_to p emin 0 = Fin 0"
  by (simp add: round_to_def)

lemma x87_one: "round_to 64 (- 16382) 1 = Fin 1"
  by (subst round_to_normal [where e = 0]) (simp_all add: round_even_def Let_def)

text \<open>
  A run on the platform \<open>x86_arith\<close>: the kernels change both particles, the normalisation
  changes the log-weight \<open>- 3\<close> to 0, two moves are accepted, and the effective sample size 1
  is not below the threshold 1.
\<close>

lemma demo_IterateEss_busy:
  "map_option (\<lambda>(e, s'). (e, pParticles s', nAccepted s', nResampled s', T s', N s'))
     (IterateEss True x86_arith demo_rng
        (demo_sampler [Fin (- 3), MInf]\<lparr>Moves := busy_moves, nAccepted := 5, T := 3\<rparr>))
   = Some (Fin 1, [new_particle 11 (Fin 0), new_particle 12 MInf], 2, 0, 4, 2)"
  by (simp add: IterateEss_def IterateEss_move_def MoveParticles_def normalise_weights_def
      demo_sampler_def max_logweight_def max_fold_def upt_rec busy_moves_def dmax_def
      new_particle_def GetLogWeight_def SetLogWeight_def SetValue_def GetValue_def dsub_def
      Let_def GetESS_def ess_of_def x86_arith_def fexp_def flog_def rounded_def x87_one
      round_to_zero binary64_values)

theorem history_round_trip_witness:
  "htHistoryMode (demo_sampler [Fin (- 3), MInf]\<lparr>Moves := busy_moves, nAccepted := 5, T := 3\<rparr>)
     \<noteq> SMC_HISTORY_NONE
   \<and> int (length (pParticles
        (demo_sampler [Fin (- 3), MInf]\<lparr>Moves := busy_moves, nAccepted := 5, T := 3\<rparr>)))
       = N (demo_sampler [Fin (- 3), MInf]\<lparr>Moves := busy_moves, nAccepted := 5, T := 3\<rparr>)
   \<and> (\<exists>s1 s2. IterateEss True x86_arith demo_rng
          (demo_sampler [Fin (- 3), MInf]\<lparr>Moves := busy_moves, nAccepted := 5, T := 3\<rparr>)
          = Some (Fin 1, s1)
        \<and> pParticles s1 = [new_particle 11 (Fin 0), new_particle 12 MInf]
        \<and> nAccepted s1 = 2 \<and> nResampled s1 = 0 \<and> T s1 = 4
        \<and> IterateBack s1 = (Inr (), s2)
        \<and> N s2 = 2 \<and> pParticles s2 = [new_particle 0 (Fin (- 3)), new_particle 1 MInf]
        \<and> nAccepted s2 = 5 \<and> T s2 = 3)"
proof -
  let ?s = "demo_sampler [Fin (- 3), MInf]\<lparr>Moves := busy_moves, nAccepted := 5, T := 3\<rparr>"
  have h1: "htHistoryMode ?s \<noteq> SMC_HISTORY_NONE" and h2: "int (length (pParticles ?s)) = N ?s"
    by (simp_all add: demo_sampler_def)
  from demo_IterateEss_busy obtain s1 where
    it: "IterateEss True x86_arith demo_rng ?s = Some (Fin 1, s1)"
    and p1: "pParticles s1 = [new_particle 11 (Fin 0), new_particle 12 MInf]"
    and a1: "nAccepted s1 = 2" and r: "nResampled s1 = 0" and t: "T s1 = 4"
    by auto
  from history_round_trip [OF h1 h2 it r] obtain s2 where
    b: "IterateBack s1 = (Inr (), s2)" and "N s2 = N ?s" "pParticles s2 = pParticles ?s"
    "nAccepted s2 = nAccepted ?s" "T s2 = T ?s"
    by blast
  then have c: "N s2 = 2" "pParticles s2 = [new_particle 0 (Fin (- 3)), new_particle 1 MInf]"
    "nAccepted s2 = 5" "T s2 = 3"
    by (simp_all add: demo_sampler_def upt_rec)
  from h1 h2 it p1 a1 r t b c show ?thesis by blast
qed

subsection \<open>The variable-population iteration\<close>

lemma fribble_batch_length:
  assumes "fribble_batch M t n start (ps, dG, g) = Some (ps', dG', g')"
  shows "length ps' = length ps + length start"
proof -
  from assms obtain pNew g1 where m: "move_loop M t [0..<nat n] start g = Some (pNew, g1)"
    and r: "length ps' = length ps + length pNew"
    by (auto simp: fribble_batch_def Let_def split: option.splits if_splits)
  from move_loop_length [OF m] r show ?thesis by simp
qed

lemma fribble_loop_length:
  assumes "fribble_loop ar M t n start th st dbh = Some (dESS, ps, g, dbh')"
  shows "length start \<le> length ps"
proof -
  have "length start \<le> length (fst (snd (dESS, ps, g, dbh')))"
  proof (rule fribble_loop.raw_induct
      [where P = "\<lambda>ar M t n start th st dbh r. length start \<le> length (fst (snd r))", OF _ assms],
      goal_cases)
    case (1 loop ar M t n start th st dbh r)
    from 1(2) obtain ps1 dG1 g1 where b: "fribble_batch M t n start st = Some (ps1, dG1, g1)"
      by (auto split: option.splits)
    obtain ps0 dG0 g0 where st: "st = (ps0, dG0, g0)" by (cases st)
    from fribble_batch_length [OF b [unfolded st]] have l: "length start \<le> length ps1" by simp
    show ?case
    proof (cases "dless (ess_of ar ps1) th \<and> length ps1 < 100000")
      case True
      with 1(2) b
      have "loop ar M t n start th (ps1, dG1, g1) (map_option (\<lambda>h. h @ [ess_of ar ps1]) dbh) = Some r"
        by (simp add: Let_def)
      from 1(1) [OF this] show ?thesis .
    next
      case False
      with 1(2) b l show ?thesis by (auto simp: Let_def)
    qed
  qed
  then show ?thesis by simp
qed

lemma IterateEssVariable_post:
  assumes len: "int (length (pParticles s)) = N s"
    and it: "IterateEssVariable asserts ar R dbh s = Some (ESS, dbh', s')"
  shows "int (length (pParticles s')) = N s'" "N s' = N s" "T s' = T s + 1"
proof -
  define s1 where "s1 = (if htHistoryMode s \<noteq> SMC_HISTORY_NONE
                   then s\<lparr>History := Push (N s) (pParticles s) (nAccepted s)
                                        (historyflags (nResampled s)) (History s)\<rparr>
                   else s)"
  have s1: "N s1 = N s" "T s1 = T s" "pParticles s1 = pParticles s"
    by (simp_all add: s1_def)
  from it obtain ps g s3 ps' g' acc where
    lp: "fribble_loop ar (Moves s1) (T s1 + 1) (N s1) (pParticles s1) (dResampleThreshold s1)
           ([], MInf, pRng s1) (map_option (\<lambda>h. []) dbh) = Some (ESS, ps, g, dbh')"
    and ds: "(if N s1 < int (length ps)
              then fribble_downsample R (s1\<lparr>pParticles := ps, pRng := g, nResampled := 1\<rparr>)
              else Some (s1\<lparr>pParticles := ps, pRng := g\<rparr>)) = Some s3"
    and mc: "mcmc_loop (Moves s3) (T s3 + 1) [0..<nat (N s3)] (pParticles s3) (pRng s3) 0
              = Some (ps', g', acc)"
    and s': "s' = s3\<lparr>pParticles := ps', pRng := g', nAccepted := acc, T := T s3 + 1\<rparr>"
    unfolding IterateEssVariable_def Let_def s1_def [symmetric]
    by (auto split: option.splits if_splits)
  from fribble_loop_length [OF lp] len have ge: "N s \<le> int (length ps)" by (simp add: s1)
  have f3: "N s3 = N s \<and> T s3 = T s \<and> int (length (pParticles s3)) = N s3"
  proof (cases "N s1 < int (length ps)")
    case True
    with ds have "fribble_downsample R (s1\<lparr>pParticles := ps, pRng := g, nResampled := 1\<rparr>)
        = Some s3" by simp
    from fribble_downsample_post(1,2) [OF this] show ?thesis
      by (simp add: resample_frame_def s1)
  next
    case False
    with ds ge show ?thesis by (auto simp: s1)
  qed
  from mcmc_loop_length [OF mc] f3
  show "int (length (pParticles s')) = N s'" "N s' = N s" "T s' = T s + 1"
    by (simp_all add: s')
qed

lemma Initialise_time: "Initialise s = Some s0 \<Longrightarrow> T s0 = 0"
  by (auto simp: Initialise_def Let_def split: option.splits prod.splits if_splits)

subsection \<open>Runs of the example samplers\<close>

lemma replicate_2: "replicate 2 x = [x, x]"
  by (simp add: numeral_2_eq_2)

lemma demo_downsample:
  "map_option pParticles (fribble_downsample demo_rng (demo_sampler [Fin 0, MInf]))
   = Some [new_particle 0 (Fin 0), new_particle 0 (Fin 0)]"
  by (simp add: fribble_downsample_def SampleStratified_def SampleSystematic_def
      demo_sampler_def demo_rng_def upt_rec new_particle_def GetLogWeight_def GetValue_def
      of_long_def as_size_t_def Let_def sys_outer.simps sys_inner.simps fill_inner.simps
      replicate_2)

lemma demo_ResampleFribble:
  "map_option pParticles (ResampleFribble True exact_arith demo_rng (demo_sampler [Fin 0, MInf]) (Fin (1 / 2)))
   = Some [new_particle 0 (Fin 0), new_particle 0 (Fin 0)]"
  apply (simp add: ResampleFribble_def demo_sampler_def upt_rec)
  apply (subst fribble_grow.simps)
  apply (simp add: SampleStratified_def SampleSystematic_def
      demo_rng_def upt_rec new_particle_def GetLogWeight_def GetValue_def idle_moves_def
      of_long_def as_size_t_def Let_def sys_outer.simps sys_inner.simps fill_inner.simps
      replicate_2)
  apply (subst fribble_grow.simps)
  apply (simp add: GetESS_def ess_of_exact GetLogWeight_def)
  apply (simp add: fribble_downsample_def SampleStratified_def SampleSystematic_def
      demo_rng_def upt_rec new_particle_def GetLogWeight_def GetValue_def
      of_long_def as_size_t_def Let_def sys_outer.simps sys_inner.simps fill_inner.simps
      replicate_2)
  done

lemma demo_IterateEssVariable:
  "map_option (\<lambda>(e, h, s'). (e, h, pParticles s', T s', N s', nResampled s'))
     (IterateEssVariable True exact_arith demo_rng (Some [Fin 7])
        (demo_sampler [Fin 0, MInf]\<lparr>dResampleThreshold := Fin 2\<rparr>))
   = Some (Fin 2, Some [Fin 1, Fin 2], [new_particle 0 (Fin 0), new_particle 0 (Fin 0)], 1, 2, 1)"
  apply (simp add: IterateEssVariable_def demo_sampler_def upt_rec Let_def)
  apply (subst fribble_loop.simps)
  apply (simp add: fribble_batch_def idle_moves_def upt_rec max_fold_def new_particle_def
      GetLogWeight_def dmax_def AddToLogWeight_def ess_of_exact Let_def)
  apply (subst fribble_loop.simps)
  apply (simp add: fribble_batch_def idle_moves_def upt_rec max_fold_def new_particle_def
      GetLogWeight_def dmax_def AddToLogWeight_def ess_of_exact Let_def)
  apply (simp add: fribble_downsample_def SampleStratified_def SampleSystematic_def
      demo_rng_def upt_rec new_particle_def GetLogWeight_def GetValue_def
      of_long_def as_size_t_def Let_def sys_outer.simps sys_inner.simps fill_inner.simps
      replicate_2)
  done

lemma demo_Initialise:
  "map_option (\<lambda>s'. (T s', pParticles s', History s'))
     (Initialise (demo_sampler [NaN, NaN]\<lparr>T := 5\<rparr>))
   = Some (0, [new_particle 0 (Fin 0), new_particle 0 (Fin 0)],
           [\<lparr>number = 2, particles = [new_particle 0 (Fin 0), new_particle 0 (Fin 0)],
             accepted = 0, resampled = False\<rparr>])"
  by (simp add: Initialise_def demo_sampler_def idle_moves_def upt_rec new_particle_def
      Push_def historyflags_def Let_def)

lemma demo_Resample_systematic:
  "map_option pParticles
     (Resample exact_arith demo_rng SMC_RESAMPLE_SYSTEMATIC (demo_sampler [Fin 0, MInf]))
   = Some [new_particle 0 (Fin 0), new_particle 0 (Fin 0)]"
  apply (simp add: Resample_def Resample_counts_def stratified_counts_def weight_sum_def
      logweight_at_def demo_sampler_def demo_rng_def upt_rec new_particle_def GetLogWeight_def
      overwrite_def of_long_def Let_def exact_arith_def rounded_Fin fexp_exact)
  apply (subst strat_outer.simps)
  apply (simp add: strat_inner.simps dsub_def of_long_def rounded_Fin fexp_exact)
  apply (subst strat_outer.simps)
  apply (simp add: count_to_indices_def upt_rec spread.simps find_free.simps SetLogWeight_def
       SetValue_def GetValue_def)
  done

lemma demo_IterateEss_resample:
  "map_option (\<lambda>(e, s'). (e, pParticles s', T s', N s', nResampled s'))
     (IterateEss True exact_arith demo_rng
        (demo_sampler [Fin 0, MInf]\<lparr>dResampleThreshold := Fin 2\<rparr>))
   = Some (Fin 1, [new_particle 0 (Fin 0), new_particle 0 (Fin 0)], 1, 2, 1)"
  apply (simp add: IterateEss_def IterateEss_move_def MoveParticles_def normalise_weights_def
      demo_sampler_def max_logweight_def max_fold_def upt_rec idle_moves_def dmax_def
      new_particle_def GetLogWeight_def SetLogWeight_def dsub_def Let_def GetESS_def ess_of_exact)
  apply (simp add: Resample_def Resample_counts_def stratified_counts_def weight_sum_def
      logweight_at_def demo_rng_def upt_rec GetLogWeight_def
      overwrite_def of_long_def Let_def exact_arith_def rounded_Fin fexp_exact)
  apply (subst strat_outer.simps)
  apply (simp add: strat_inner.simps dsub_def of_long_def rounded_Fin fexp_exact)
  apply (subst strat_outer.simps)
  apply (simp add: count_to_indices_def upt_rec spread.simps find_free.simps SetLogWeight_def
       SetValue_def GetValue_def)
  done

text \<open>
  C7. An \<open>IterateEss\<close> or \<open>IterateEssVariable\<close> call that returns, on a population of \<open>N\<close>
  particles, leaves a population of \<open>N\<close> particles, with \<open>N\<close> unchanged and \<open>T\<close> advanced by
  exactly 1; \<open>T\<close> is 0 when \<open>Initialise\<close> returns. This holds with the source's assertions
  compiled in or out.
\<close>

theorem iteration_size_and_time:
  "(int (length (pParticles s)) = N s \<and> IterateEss asserts ar R s = Some (ESS, s') \<longrightarrow>
      int (length (pParticles s')) = N s' \<and> N s' = N s \<and> T s' = T s + 1)
   \<and> (int (length (pParticles s)) = N s
        \<and> IterateEssVariable asserts ar R dbh s = Some (ESS', dbh', s'') \<longrightarrow>
      int (length (pParticles s'')) = N s'' \<and> N s'' = N s \<and> T s'' = T s + 1)
   \<and> (Initialise s = Some si \<longrightarrow> T si = 0)"
  using IterateEss_post(1,2,5) [of asserts ar R s ESS s']
    IterateEssVariable_post [of s asserts ar R dbh ESS' dbh' s''] Initialise_time [of s si]
  by blast


theorem iteration_size_and_time_witness:
  "int (length (pParticles (demo_sampler [Fin 0, MInf]\<lparr>dResampleThreshold := Fin 2\<rparr>)))
     = N (demo_sampler [Fin 0, MInf]\<lparr>dResampleThreshold := Fin 2\<rparr>)
   \<and> (\<exists>s'. IterateEss True exact_arith demo_rng
               (demo_sampler [Fin 0, MInf]\<lparr>dResampleThreshold := Fin 2\<rparr>) = Some (Fin 1, s')
          \<and> nResampled s' = 1 \<and> int (length (pParticles s')) = N s' \<and> N s' = 2 \<and> T s' = 1)
   \<and> (\<exists>h s''. IterateEssVariable True exact_arith demo_rng (Some [Fin 7])
               (demo_sampler [Fin 0, MInf]\<lparr>dResampleThreshold := Fin 2\<rparr>) = Some (Fin 2, h, s'')
          \<and> nResampled s'' = 1 \<and> int (length (pParticles s'')) = N s'' \<and> N s'' = 2 \<and> T s'' = 1)
   \<and> (\<exists>s0. Initialise (demo_sampler [NaN, NaN]\<lparr>T := 5\<rparr>) = Some s0 \<and> T s0 = 0)"
proof -
  let ?s = "demo_sampler [Fin 0, MInf]\<lparr>dResampleThreshold := Fin 2\<rparr>"
  let ?c = "demo_sampler [NaN, NaN]\<lparr>T := 5\<rparr>"
  have len: "int (length (pParticles ?s)) = N ?s" by (simp add: demo_sampler_def)
  from demo_IterateEss_resample obtain s' where
    a: "IterateEss True exact_arith demo_rng ?s = Some (Fin 1, s')" and a': "nResampled s' = 1"
    by auto
  from demo_IterateEssVariable obtain h s'' where
    b: "IterateEssVariable True exact_arith demo_rng (Some [Fin 7]) ?s = Some (Fin 2, h, s'')"
    and b': "nResampled s'' = 1"
    by auto
  from demo_Initialise obtain s0 where c: "Initialise ?c = Some s0" by auto
  from iteration_size_and_time [where s = ?s and asserts = True and R = demo_rng
      and ar = exact_arith and ESS = "Fin 1" and s' = s'] len a
  have A: "int (length (pParticles s')) = N s' \<and> N s' = 2 \<and> T s' = 1"
    by (simp add: demo_sampler_def)
  from iteration_size_and_time [where s = ?s and asserts = True and R = demo_rng
      and ar = exact_arith and dbh = "Some [Fin 7]" and ESS' = "Fin 2" and dbh' = h and s'' = s''] len b
  have B: "int (length (pParticles s'')) = N s'' \<and> N s'' = 2 \<and> T s'' = 1"
    by (simp add: demo_sampler_def)
  from iteration_size_and_time [where s = ?c and si = s0] c have C: "T s0 = 0" by simp
  from len a a' A b b' B c C show ?thesis by blast
qed

text \<open>
  C3. When \<open>Resample\<close> (on a population of \<open>N\<close> particles, in any mode), \<open>ResampleFribble\<close> or
  the downsampling step of \<open>IterateEssVariable\<close> returns, every particle of the population has
  log-weight 0.
\<close>

theorem resampled_logweights_zero:
  "(int (length (pParticles s)) = N s \<and> Resample ar R lMode s = Some s' \<longrightarrow>
      (\<forall>p\<in>set (pParticles s'). logweight p = Fin 0))
   \<and> (ResampleFribble asserts ar R s dESS = Some s'' \<longrightarrow>
      (\<forall>p\<in>set (pParticles s''). logweight p = Fin 0))
   \<and> (fribble_downsample R s = Some s''' \<longrightarrow>
      (\<forall>p\<in>set (pParticles s'''). logweight p = Fin 0))"
proof (intro conjI impI)
  assume a: "int (length (pParticles s)) = N s \<and> Resample ar R lMode s = Some s'"
  from Resample_post(2,4) [of ar R lMode s s'] a
  show "\<forall>p\<in>set (pParticles s'). logweight p = Fin 0"
    by (auto simp: in_set_conv_nth)
next
  assume "ResampleFribble asserts ar R s dESS = Some s''"
  then show "\<forall>p\<in>set (pParticles s''). logweight p = Fin 0" by (rule ResampleFribble_post(3))
next
  assume "fribble_downsample R s = Some s'''"
  then show "\<forall>p\<in>set (pParticles s'''). logweight p = Fin 0" by (rule fribble_downsample_post(3))
qed

theorem resampled_logweights_zero_witness:
  "int (length (pParticles (demo_sampler [Fin 0, MInf]))) = N (demo_sampler [Fin 0, MInf])
   \<and> (\<exists>s'. Resample exact_arith demo_rng SMC_RESAMPLE_SYSTEMATIC (demo_sampler [Fin 0, MInf])
               = Some s'
          \<and> list_all (\<lambda>p. logweight p = Fin 0) (pParticles s'))
   \<and> (\<exists>s'. ResampleFribble True exact_arith demo_rng (demo_sampler [Fin 0, MInf]) (Fin (1 / 2)) = Some s'
          \<and> list_all (\<lambda>p. logweight p = Fin 0) (pParticles s'))
   \<and> (\<exists>s'. fribble_downsample demo_rng (demo_sampler [Fin 0, MInf]) = Some s'
          \<and> list_all (\<lambda>p. logweight p = Fin 0) (pParticles s'))"
proof -
  let ?s = "demo_sampler [Fin 0, MInf]"
  have len: "int (length (pParticles ?s)) = N ?s" by (simp add: demo_sampler_def)
  from demo_Resample_systematic obtain s1 where
    a: "Resample exact_arith demo_rng SMC_RESAMPLE_SYSTEMATIC ?s = Some s1" by auto
  from demo_ResampleFribble obtain s2 where
    b: "ResampleFribble True exact_arith demo_rng ?s (Fin (1 / 2)) = Some s2" by auto
  from demo_downsample obtain s3 where
    c: "fribble_downsample demo_rng ?s = Some s3" by auto
  from resampled_logweights_zero
    [of ?s exact_arith demo_rng SMC_RESAMPLE_SYSTEMATIC s1 True "Fin (1 / 2)" s2 s3] len a b c
  have "list_all (\<lambda>p. logweight p = Fin 0) (pParticles s1)"
    "list_all (\<lambda>p. logweight p = Fin 0) (pParticles s2)"
    "list_all (\<lambda>p. logweight p = Fin 0) (pParticles s3)"
    by (simp_all add: list_all_iff)
  with len a b c show ?thesis by blast
qed

subsection \<open>The fribble batch loop\<close>

lemma max_fold_map_shift:
  assumes lw: "\<forall>p\<in>set ps. is_logweight (logweight p)"
    and mx: "max_fold ps = Fin m"
    and f: "\<forall>p\<in>set ps. logweight (f p) = dadd (logweight p) (Fin c)"
  shows "max_fold (map f ps) = Fin (m + c)"
    and "\<forall>p\<in>set (map f ps). is_logweight (logweight p)"
proof -
  have f': "\<And>p. p \<in> set ps \<Longrightarrow>
      logweight (f p) = (case logweight p of Fin x \<Rightarrow> Fin (x + c) | _ \<Rightarrow> MInf)"
    subgoal for p
      using lw f by (cases "logweight p") auto
    done
  show l': "\<forall>p\<in>set (map f ps). is_logweight (logweight p)"
    using lw by (auto simp: f' split: double.splits)
  from mx have ex: "\<exists>p\<in>set ps. logweight p = Fin m"
    and ub: "\<forall>p\<in>set ps. \<forall>x. logweight p = Fin x \<longrightarrow> x \<le> m"
    unfolding max_fold_Fin [OF lw] by blast+
  from ex obtain p where p: "p \<in> set ps" "logweight p = Fin m" by blast
  then have "logweight (f p) = Fin (m + c)" by (simp add: f')
  with p have ex': "\<exists>q\<in>set (map f ps). logweight q = Fin (m + c)" by force
  have ub': "\<forall>q\<in>set (map f ps). \<forall>x. logweight q = Fin x \<longrightarrow> x \<le> m + c"
  proof (intro ballI allI impI)
    fix q x assume q: "q \<in> set (map f ps)" and x: "logweight q = Fin x"
    from q obtain p where p: "p \<in> set ps" "q = f p" by auto
    with lw have "is_logweight (logweight p)" by blast
    with x p ub show "x \<le> m + c"
      by (cases "logweight p") (auto simp: f')
  qed
  show "max_fold (map f ps) = Fin (m + c)"
    unfolding max_fold_Fin [OF l'] using ex' ub' by blast
qed

lemma max_fold_append:
  assumes "\<forall>p\<in>set xs. is_logweight (logweight p)" "\<forall>p\<in>set ys. is_logweight (logweight p)"
    and "max_fold xs = Fin a" "max_fold ys = Fin b"
  shows "max_fold (xs @ ys) = Fin (max a b)"
proof -
  have l: "\<forall>p\<in>set (xs @ ys). is_logweight (logweight p)" using assms(1,2) by auto
  from assms(3,4) show ?thesis
    unfolding max_fold_Fin [OF l] max_fold_Fin [OF assms(1)] max_fold_Fin [OF assms(2)]
    by (auto simp: max_def)
qed

text \<open>
  The loop invariant: once a batch has been appended, the accumulated log-weights are real
  numbers or minus infinity, their maximum is 0, and the global maximum is finite.
\<close>

lemma fribble_batch_inv:
  assumes ok: "\<forall>g pNew g'. move_loop M t [0..<nat n] start g = Some (pNew, g') \<longrightarrow>
                 (\<forall>p\<in>set pNew. is_logweight (logweight p))
                 \<and> (\<exists>p\<in>set pNew. is_finite (logweight p))"
    and inv: "ps = [] \<or> ((\<forall>p\<in>set ps. is_logweight (logweight p)) \<and> max_fold ps = Fin 0
                \<and> is_finite dG)"
    and b: "fribble_batch M t n start (ps, dG, g) = Some (ps', dG', g')"
  shows "ps' \<noteq> [] \<and> (\<forall>p\<in>set ps'. is_logweight (logweight p)) \<and> max_fold ps' = Fin 0
           \<and> is_finite dG'"
proof -
  from b obtain pNew g1 where m: "move_loop M t [0..<nat n] start g = Some (pNew, g1)"
    by (auto simp: fribble_batch_def split: option.splits)
  from ok m have lwN: "\<forall>p\<in>set pNew. is_logweight (logweight p)"
    and fin: "\<exists>p\<in>set pNew. is_finite (logweight p)" by blast+
  from max_fold_finite [OF lwN fin] obtain L where L: "max_fold pNew = Fin L" by blast
  from fin have ne: "pNew \<noteq> []" by auto
  have addN: "\<And>c. \<forall>p\<in>set pNew. logweight (AddToLogWeight p (Fin c)) = dadd (logweight p) (Fin c)"
    by (simp add: AddToLogWeight_def)
  show ?thesis
  proof (cases "ps = []")
    case True
    with b m have ps': "ps' = map (\<lambda>p. AddToLogWeight p (dneg (Fin L))) pNew" and "dG' = Fin L"
      by (auto simp: fribble_batch_def Let_def L)
    moreover from max_fold_map_shift [OF lwN L, of "\<lambda>p. AddToLogWeight p (Fin (- L))" "- L"]
    have "max_fold (map (\<lambda>p. AddToLogWeight p (Fin (- L))) pNew) = Fin 0"
      "\<forall>p\<in>set (map (\<lambda>p. AddToLogWeight p (Fin (- L))) pNew). is_logweight (logweight p)"
      by (simp_all add: AddToLogWeight_def)
    ultimately show ?thesis using ne by simp
  next
    case False
    with inv obtain G where lw: "\<forall>p\<in>set ps. is_logweight (logweight p)"
      and mx: "max_fold ps = Fin 0" and G: "dG = Fin G"
      by (cases dG) auto
    show ?thesis
    proof (cases "G < L")
      case True
      with b m False
      have ps': "ps' = map (\<lambda>p. AddToLogWeight p (Fin (G - L))) ps
                       @ map (\<lambda>p. AddToLogWeight p (Fin (- L))) pNew"
        and dG': "dG' = Fin L"
        by (auto simp: fribble_batch_def Let_def dsub_def L G)
      from max_fold_map_shift [OF lw mx, of "\<lambda>p. AddToLogWeight p (Fin (G - L))" "G - L"]
      have 1: "max_fold (map (\<lambda>p. AddToLogWeight p (Fin (G - L))) ps) = Fin (G - L)"
        "\<forall>p\<in>set (map (\<lambda>p. AddToLogWeight p (Fin (G - L))) ps). is_logweight (logweight p)"
        by (simp_all add: AddToLogWeight_def)
      from max_fold_map_shift [OF lwN L, of "\<lambda>p. AddToLogWeight p (Fin (- L))" "- L"]
      have 2: "max_fold (map (\<lambda>p. AddToLogWeight p (Fin (- L))) pNew) = Fin 0"
        "\<forall>p\<in>set (map (\<lambda>p. AddToLogWeight p (Fin (- L))) pNew). is_logweight (logweight p)"
        by (simp_all add: AddToLogWeight_def)
      from max_fold_append [OF 1(2) 2(2) 1(1) 2(1)] True
      have "max_fold ps' = Fin 0" by (simp add: ps' max_def)
      with 1(2) 2(2) ne dG' show ?thesis by (auto simp: ps')
    next
      case nlt: False
      with b m False
      have ps': "ps' = ps @ map (\<lambda>p. AddToLogWeight p (Fin (- G))) pNew"
        and dG': "dG' = Fin G"
        by (auto simp: fribble_batch_def Let_def L G)
      from max_fold_map_shift [OF lwN L, of "\<lambda>p. AddToLogWeight p (Fin (- G))" "- G"]
      have 2: "max_fold (map (\<lambda>p. AddToLogWeight p (Fin (- G))) pNew) = Fin (L - G)"
        "\<forall>p\<in>set (map (\<lambda>p. AddToLogWeight p (Fin (- G))) pNew). is_logweight (logweight p)"
        by (simp_all add: AddToLogWeight_def)
      from max_fold_append [OF lw 2(2) mx 2(1)] nlt
      have "max_fold ps' = Fin 0" by (simp add: ps' max_def)
      with lw 2(2) ne dG' show ?thesis by (auto simp: ps')
    qed
  qed
qed

lemma fribble_batches_inv:
  assumes ok: "\<forall>g pNew g'. move_loop M t [0..<nat n] start g = Some (pNew, g') \<longrightarrow>
                 (\<forall>p\<in>set pNew. is_logweight (logweight p))
                 \<and> (\<exists>p\<in>set pNew. is_finite (logweight p))"
  shows "fribble_batches M t n start g0 (Suc k) = Some (ps, dG, g) \<Longrightarrow>
         ps \<noteq> [] \<and> (\<forall>p\<in>set ps. is_logweight (logweight p)) \<and> max_fold ps = Fin 0
           \<and> is_finite dG"
proof (induction k arbitrary: ps dG g)
  case 0
  then have "fribble_batch M t n start ([], MInf, g0) = Some (ps, dG, g)" by simp
  from fribble_batch_inv [OF ok _ this] show ?case by simp
next
  case (Suc k)
  from Suc.prems obtain ps1 dG1 g1 where
    p: "fribble_batches M t n start g0 (Suc k) = Some (ps1, dG1, g1)"
    and b: "fribble_batch M t n start (ps1, dG1, g1) = Some (ps, dG, g)"
    by (cases "fribble_batches M t n start g0 (Suc k)") auto
  from Suc.IH [OF p] have "ps1 = [] \<or> ((\<forall>p\<in>set ps1. is_logweight (logweight p))
      \<and> max_fold ps1 = Fin 0 \<and> is_finite dG1)" by blast
  from fribble_batch_inv [OF ok this b] show ?case .
qed

text \<open>What the do-loop returns is the population after some batch.\<close>

lemma fribble_loop_batches:
  assumes "fribble_loop ar M t n start th st dbh = Some r"
    and "fribble_batches M t n start g0 k = Some st"
  shows "\<exists>k' dG. fribble_batches M t n start g0 (Suc k') = Some (fst (snd r), dG, fst (snd (snd r)))"
proof -
  have "\<forall>k. fribble_batches M t n start g0 k = Some st \<longrightarrow>
    (\<exists>k' dG. fribble_batches M t n start g0 (Suc k') = Some (fst (snd r), dG, fst (snd (snd r))))"
  proof (rule fribble_loop.raw_induct
      [where P = "\<lambda>ar M t n start th st dbh r. \<forall>k. fribble_batches M t n start g0 k = Some st \<longrightarrow>
        (\<exists>k' dG. fribble_batches M t n start g0 (Suc k') = Some (fst (snd r), dG, fst (snd (snd r))))",
       OF _ assms(1)], goal_cases)
    case (1 loop ar M t n start th st dbh r)
    from 1(2) obtain ps1 dG1 g1 where b: "fribble_batch M t n start st = Some (ps1, dG1, g1)"
      by (auto split: option.splits)
    show ?case
    proof (intro allI impI)
      fix k assume k: "fribble_batches M t n start g0 k = Some st"
      with b have k1: "fribble_batches M t n start g0 (Suc k) = Some (ps1, dG1, g1)" by simp
      show "\<exists>k' dG. fribble_batches M t n start g0 (Suc k')
          = Some (fst (snd r), dG, fst (snd (snd r)))"
      proof (cases "dless (ess_of ar ps1) th \<and> length ps1 < 100000")
        case True
        with 1(2) b
        have "loop ar M t n start th (ps1, dG1, g1) (map_option (\<lambda>h. h @ [ess_of ar ps1]) dbh) = Some r"
          by (simp add: Let_def)
        from 1(1) [OF this] k1 show ?thesis by blast
      next
        case False
        with 1(2) b have "fst (snd r) = ps1" "fst (snd (snd r)) = g1" by (auto simp: Let_def)
        with k1 show ?thesis by auto
      qed
    qed
  qed
  with assms(2) show ?thesis by blast
qed

text \<open>
  C9. In the batch loop of \<open>IterateEssVariable\<close>, if every batch the move produces has
  log-weights that are real numbers or minus infinity, at least one of them a real number,
  then after every batch is rescaled and appended the maximum log-weight over the
  accumulated population is 0; so it is for the population the loop returns.
\<close>

theorem fribble_max_zero:
  assumes "\<forall>g pNew g'. move_loop M t [0..<nat n] start g = Some (pNew, g') \<longrightarrow>
             (\<forall>p\<in>set pNew. is_logweight (logweight p))
             \<and> (\<exists>p\<in>set pNew. is_finite (logweight p))"
  shows "(fribble_batches M t n start g0 (Suc k) = Some (ps, dG, g) \<longrightarrow> max_fold ps = Fin 0)
       \<and> (fribble_loop ar M t n start th ([], MInf, g0) dbh = Some (dESS, ps', g', dbh') \<longrightarrow>
            max_fold ps' = Fin 0)"
proof (intro conjI impI)
  assume "fribble_batches M t n start g0 (Suc k) = Some (ps, dG, g)"
  from fribble_batches_inv [OF assms this] show "max_fold ps = Fin 0" by blast
next
  assume "fribble_loop ar M t n start th ([], MInf, g0) dbh = Some (dESS, ps', g', dbh')"
  from fribble_loop_batches [OF this, of g0 0] obtain k' dG where
    "fribble_batches M t n start g0 (Suc k') = Some (ps', dG, g')" by auto
  from fribble_batches_inv [OF assms this] show "max_fold ps' = Fin 0" by blast
qed

lemma demo_move_loop:
  "move_loop idle_moves t [0..<2] [a, b] g = Some ([a, b], g)"
  by (simp add: idle_moves_def upt_rec)

theorem fribble_max_zero_witness:
  "(\<forall>g. move_loop idle_moves 1 [0..<nat 2] [new_particle 0 (Fin (- 3)), new_particle 1 MInf] g
          = Some ([new_particle 0 (Fin (- 3)), new_particle 1 MInf], g))
   \<and> is_logweight (Fin (- 3)) \<and> is_logweight MInf \<and> is_finite (Fin (- 3))
   \<and> fribble_batches idle_moves 1 2 [new_particle 0 (Fin (- 3)), new_particle 1 MInf] 0 (Suc 1)
       = Some ([new_particle 0 (Fin 0), new_particle 1 MInf,
                new_particle 0 (Fin 0), new_particle 1 MInf], Fin (- 3), 0)
   \<and> max_fold [new_particle (0::nat) (Fin 0), new_particle 1 MInf,
                new_particle 0 (Fin 0), new_particle 1 MInf] = Fin 0
   \<and> (\<exists>e ps' g' h. fribble_loop exact_arith idle_moves 1 2 [new_particle 0 (Fin (- 3)), new_particle 1 MInf]
           (Fin 2) ([], MInf, 0) None = Some (e, ps', g', h) \<and> max_fold ps' = Fin 0)"
proof -
  let ?start = "[new_particle (0::nat) (Fin (- 3)), new_particle 1 MInf]"
  let ?ps = "[new_particle (0::nat) (Fin 0), new_particle 1 MInf,
              new_particle 0 (Fin 0), new_particle 1 MInf]"
  have mv: "\<And>g::nat. move_loop idle_moves 1 [0..<nat 2] ?start g = Some (?start, g)"
    by (simp add: demo_move_loop)
  have ok: "\<forall>(g::nat) pNew g'. move_loop idle_moves 1 [0..<nat 2] ?start g = Some (pNew, g') \<longrightarrow>
             (\<forall>p\<in>set pNew. is_logweight (logweight p))
             \<and> (\<exists>p\<in>set pNew. is_finite (logweight p))"
    by (auto simp: demo_move_loop new_particle_def)
  have b: "fribble_batches idle_moves 1 2 ?start (0::nat) (Suc 1) = Some (?ps, Fin (- 3), 0)"
    by (simp add: fribble_batch_def demo_move_loop max_fold_def new_particle_def
        GetLogWeight_def dmax_def AddToLogWeight_def Let_def)
  have l: "\<exists>e ps' g' h. fribble_loop exact_arith idle_moves 1 2 ?start (Fin 2) ([], MInf, 0::nat) None
      = Some (e, ps', g', h)"
    apply (subst fribble_loop.simps)
    apply (simp add: fribble_batch_def demo_move_loop max_fold_def new_particle_def
        GetLogWeight_def dmax_def AddToLogWeight_def ess_of_exact Let_def)
    apply (subst fribble_loop.simps)
    apply (simp add: fribble_batch_def demo_move_loop max_fold_def new_particle_def
        GetLogWeight_def dmax_def AddToLogWeight_def ess_of_exact Let_def)
    done
  then obtain e ps' g' h where l': "fribble_loop exact_arith idle_moves 1 2 ?start (Fin 2) ([], MInf, 0::nat) None
      = Some (e, ps', g', h)" by blast
  from fribble_max_zero [OF ok, of 0 1 ?ps "Fin (- 3)" 0 exact_arith "Fin 2" None e ps' g' h] b l'
  have r: "max_fold ?ps = Fin 0" "max_fold ps' = Fin 0" by blast+
  have c: "is_logweight (Fin (- 3)) \<and> is_logweight MInf \<and> is_finite (Fin (- 3))" by simp
  from mv b l' r c show ?thesis by blast
qed

subsection \<open>From counts to indices\<close>

lemma find_free_hd:
  "filter (\<lambda>f. cnt ! f = 0) [j..<length cnt] = f # rest \<Longrightarrow>
   find_free cnt j = Some f \<and> f < length cnt \<and> cnt ! f = 0
   \<and> filter (\<lambda>f. cnt ! f = 0) [Suc f..<length cnt] = rest"
proof (induction cnt j rule: find_free.induct)
  case (1 cnt j)
  show ?case
  proof (cases "j < length cnt")
    case False
    with "1.prems" show ?thesis by simp
  next
    case True
    then have u: "[j..<length cnt] = j # [Suc j..<length cnt]" by (rule upt_conv_Cons)
    show ?thesis
    proof (cases "cnt ! j > 0")
      case pos: True
      with "1.prems" u have "filter (\<lambda>f. cnt ! f = 0) [j + 1..<length cnt] = f # rest" by simp
      from "1.IH" [OF True pos this] True pos show ?thesis
        by (subst find_free.simps) simp
    next
      case False
      with "1.prems" u True show ?thesis
        by (subst find_free.simps) auto
    qed
  qed
qed

lemma fold_update_length: "length (fold (\<lambda>f a. a[f := v]) fs a) = length a"
  by (induction fs arbitrary: a) auto

lemma fold_update_nth:
  "x < length a \<Longrightarrow>
   fold (\<lambda>f a. a[f := v]) fs a ! x = (if x \<in> set fs then v else a ! x)"
  by (induction fs arbitrary: a) (auto simp: nth_list_update)

lemma filter_zero_update:
  fixes cnt :: "nat list"
  assumes "i < length cnt" "0 < cnt ! i" "0 < v"
  shows "filter (\<lambda>f. cnt[i := v] ! f = 0) xs = filter (\<lambda>f. cnt ! f = 0) xs"
proof (rule filter_cong [OF refl])
  fix f
  show "(cnt[i := v] ! f = 0) = (cnt ! f = 0)"
    using assms by (cases "f = i") auto
qed

text \<open>
  The inner loop for slot \<open>i\<close> with \<open>r\<close> surplus copies: it takes the next \<open>r\<close> free slots.
\<close>

lemma spread_spec:
  assumes "i < length cnt" "length idx = length cnt" "cnt ! i = Suc r"
    and "filter (\<lambda>f. cnt ! f = 0) [j..<length cnt] = fs" "r \<le> length fs"
  shows "\<exists>j'. spread i j cnt idx = Some (j', cnt[i := 1], fold (\<lambda>f a. a[f := i]) (take r fs) idx)
           \<and> filter (\<lambda>f. cnt ! f = 0) [j'..<length cnt] = drop r fs"
  using assms
proof (induction r arbitrary: j cnt idx fs)
  case 0
  then have "cnt[i := 1] = cnt" by (metis One_nat_def list_update_id)
  with 0 show ?case by (subst spread.simps) auto
next
  case (Suc r)
  from Suc.prems(5) obtain f rest where fs: "fs = f # rest" by (cases fs) auto
  from find_free_hd [OF Suc.prems(4) [unfolded fs]]
  have ff: "find_free cnt j = Some f" and f: "f < length cnt" "cnt ! f = 0"
    and rest: "filter (\<lambda>f. cnt ! f = 0) [Suc f..<length cnt] = rest" by blast+
  let ?cnt = "cnt[i := Suc r]"
  have z: "\<And>xs. filter (\<lambda>f. ?cnt ! f = 0) xs = filter (\<lambda>f. cnt ! f = 0) xs"
    using Suc.prems(1,3) by (intro filter_zero_update) auto
  have 1: "i < length ?cnt" "length (idx[f := i]) = length ?cnt" "?cnt ! i = Suc r"
    using Suc.prems(1,2,3) by simp_all
  have 2: "filter (\<lambda>f. ?cnt ! f = 0) [Suc f..<length ?cnt] = rest" using rest by (simp add: z)
  have 3: "r \<le> length rest" using Suc.prems(5) fs by simp
  from Suc.IH [OF 1 2 3] obtain j' where
    s: "spread i (Suc f) ?cnt (idx[f := i])
          = Some (j', ?cnt[i := 1], fold (\<lambda>f a. a[f := i]) (take r rest) (idx[f := i]))"
    and d: "filter (\<lambda>f. ?cnt ! f = 0) [j'..<length ?cnt] = drop r rest"
    by blast
  have "spread i j cnt idx = spread i (Suc f) ?cnt (idx[f := i])"
    using Suc.prems(1,2,3) ff f by (subst spread.simps) simp
  with s d show ?case by (simp add: fs z)
qed

lemma surplus_upto_Suc:
  "surplus_upto (Suc i) c = surplus_upto i c @ replicate (c ! i - 1) i"
  by (simp add: surplus_upto_def)

lemma surplus_upto_prefix:
  "i \<le> k \<Longrightarrow> \<exists>rest. surplus_upto k c = surplus_upto i c @ rest"
proof (induction k)
  case 0
  then show ?case by simp
next
  case (Suc k)
  show ?case
  proof (cases "i = Suc k")
    case True
    then show ?thesis by simp
  next
    case False
    with Suc.prems have "i \<le> k" by simp
    from Suc.IH [OF this] show ?thesis by (auto simp: surplus_upto_Suc)
  qed
qed

lemma surplus_nth:
  assumes "i < length c" "length (surplus_upto i c) \<le> m" "m < length (surplus_upto (Suc i) c)"
  shows "surplus c ! m = i"
proof -
  from surplus_upto_prefix [of "Suc i" "length c" c] assms(1)
  obtain rest where "surplus c = surplus_upto (Suc i) c @ rest" by (auto simp: surplus_def)
  then have "surplus c ! m = surplus_upto (Suc i) c ! m" using assms(3) by (simp add: nth_append)
  also have "\<dots> = i" using assms(2,3) by (simp add: surplus_upto_Suc nth_append)
  finally show ?thesis .
qed

lemma surplus_nth_old:
  assumes "i \<le> length c" "m < length (surplus_upto i c)"
  shows "surplus c ! m = surplus_upto i c ! m"
proof -
  from surplus_upto_prefix [OF assms(1), of c]
  obtain rest where "surplus c = surplus_upto i c @ rest" by (auto simp: surplus_def)
  then show ?thesis using assms(2) by (simp add: nth_append)
qed

lemma surplus_set: "s \<in> set (surplus c) \<Longrightarrow> s < length c \<and> 2 \<le> c ! s"
  by (auto simp: surplus_def surplus_upto_def)

lemma free_slots_set: "f \<in> set (free_slots c) \<longleftrightarrow> f < length c \<and> c ! f = 0"
  by (auto simp: free_slots_def)

lemma free_slots_distinct: "distinct (free_slots c)"
  by (simp add: free_slots_def)

lemma count_balance:
  "sum_list (map (\<lambda>v. v - 1) c) + length c = sum_list c + length (filter (\<lambda>v. v = 0) c)"
  for c :: "nat list"
  by (induction c) auto

lemma free_surplus_length:
  assumes "sum_list c = length c"
  shows "length (free_slots c) = length (surplus c)"
proof -
  have "length (free_slots c) = length (filter (\<lambda>v. v = 0) (map (nth c) [0..<length c]))"
    unfolding free_slots_def filter_map by (simp add: comp_def)
  also have "\<dots> = length (filter (\<lambda>v. v = 0) c)" by (simp add: map_nth)
  finally have a: "length (free_slots c) = length (filter (\<lambda>v. v = 0) c)" .
  have "length (surplus c) = sum_list (map (\<lambda>v. v - 1) (map (nth c) [0..<length c]))"
    by (simp add: surplus_def surplus_upto_def length_concat comp_def)
  also have "\<dots> = sum_list (map (\<lambda>v. v - 1) c)" by (simp add: map_nth)
  finally have b: "length (surplus c) = sum_list (map (\<lambda>v. v - 1) c)" .
  from count_balance [of c] assms a b show ?thesis by simp
qed

lemma free_slots_before_notin:
  assumes "m' < m" "m \<le> length (free_slots c)"
  shows "free_slots c ! m' \<notin> set (drop m (free_slots c))"
proof -
  have "distinct (take m (free_slots c) @ drop m (free_slots c))"
    using free_slots_distinct [of c] by simp
  then have "set (take m (free_slots c)) \<inter> set (drop m (free_slots c)) = {}"
    by (metis distinct_append)
  moreover have "free_slots c ! m' \<in> set (take m (free_slots c))"
    using assms by (metis length_take min.absorb2 nth_mem nth_take)
  ultimately show ?thesis by blast
qed

lemma free_slots_within_in:
  assumes "m \<le> m'" "m' < m + r" "m + r \<le> length (free_slots c)"
  shows "free_slots c ! m' \<in> set (take r (drop m (free_slots c)))"
proof -
  have "take r (drop m (free_slots c)) ! (m' - m) = free_slots c ! m'"
    using assms by simp
  moreover have "m' - m < length (take r (drop m (free_slots c)))"
    using assms by simp
  ultimately show ?thesis by (metis nth_mem)
qed

text \<open>The outer loop, from slot \<open>i\<close> on, with what the slots below \<open>i\<close> have settled.\<close>

lemma flatten_loop_spec:
  fixes c :: "nat list"
  assumes bal: "length (free_slots c) = length (surplus c)"
  shows "i \<le> length c \<Longrightarrow> length cnt = length c \<Longrightarrow> length idx = length c \<Longrightarrow>
     (\<forall>x<length c. (cnt ! x = 0) = (c ! x = 0)) \<Longrightarrow>
     (\<forall>x. i \<le> x \<and> x < length c \<longrightarrow> cnt ! x = c ! x) \<Longrightarrow>
     filter (\<lambda>f. cnt ! f = 0) [j..<length c] = drop (length (surplus_upto i c)) (free_slots c) \<Longrightarrow>
     (\<forall>x<i. 1 \<le> c ! x \<longrightarrow> idx ! x = x) \<Longrightarrow>
     (\<forall>m<length (surplus_upto i c). idx ! (free_slots c ! m) = surplus c ! m) \<Longrightarrow>
     \<exists>j' cnt' idx'. flatten_loop [i..<length c] j cnt idx = Some (j', cnt', idx')
        \<and> length idx' = length c
        \<and> (\<forall>x<length c. 1 \<le> c ! x \<longrightarrow> idx' ! x = x)
        \<and> (\<forall>m<length (free_slots c). idx' ! (free_slots c ! m) = surplus c ! m)"
proof (induction "length c - i" arbitrary: i j cnt idx)
  case 0
  then have i: "i = length c" by simp
  with 0 bal show ?case by (simp add: surplus_def)
next
  case (Suc k)
  let ?n = "length c" and ?m = "length (surplus_upto i c)"
  from Suc.hyps(2) have i: "i < ?n" by simp
  then have u: "[i..<?n] = i # [Suc i..<?n]" by (rule upt_conv_Cons)
  have k: "k = ?n - Suc i" using Suc.hyps(2) by simp
  have ci: "cnt ! i = c ! i" using Suc.prems(5) i by simp
  show ?case
  proof (cases "c ! i = 0")
    case True
    then have su: "surplus_upto (Suc i) c = surplus_upto i c" by (simp add: surplus_upto_Suc)
    have "\<exists>j' cnt' idx'. flatten_loop [Suc i..<?n] j cnt idx = Some (j', cnt', idx')
        \<and> length idx' = ?n
        \<and> (\<forall>x<?n. 1 \<le> c ! x \<longrightarrow> idx' ! x = x)
        \<and> (\<forall>m<length (free_slots c). idx' ! (free_slots c ! m) = surplus c ! m)"
    proof (rule Suc.hyps(1) [OF k])
      show "Suc i \<le> ?n" using i by simp
      show "length cnt = ?n" "length idx = ?n" "\<forall>x<?n. (cnt ! x = 0) = (c ! x = 0)"
        by (rule Suc.prems)+
      show "\<forall>x. Suc i \<le> x \<and> x < ?n \<longrightarrow> cnt ! x = c ! x" using Suc.prems(5) by simp
      show "filter (\<lambda>f. cnt ! f = 0) [j..<?n] = drop (length (surplus_upto (Suc i) c)) (free_slots c)"
        using Suc.prems(6) by (simp add: su)
      show "\<forall>x<Suc i. 1 \<le> c ! x \<longrightarrow> idx ! x = x"
        using Suc.prems(7) True by (auto simp: less_Suc_eq)
      show "\<forall>m<length (surplus_upto (Suc i) c). idx ! (free_slots c ! m) = surplus c ! m"
        using Suc.prems(8) by (simp add: su)
    qed
    moreover have "flatten_loop [i..<?n] j cnt idx = flatten_loop [Suc i..<?n] j cnt idx"
      using i True ci Suc.prems(2) by (simp add: u)
    ultimately show ?thesis by simp
  next
    case False
    then obtain r where r: "c ! i = Suc r" by (cases "c ! i") auto
    have su: "surplus_upto (Suc i) c = surplus_upto i c @ replicate r i"
      by (simp add: surplus_upto_Suc r)
    from surplus_upto_prefix [of "Suc i" ?n c] i
    have "length (surplus_upto (Suc i) c) \<le> length (surplus c)"
      by (auto simp: surplus_def)
    then have mr: "?m + r \<le> length (free_slots c)" by (simp add: su bal)
    let ?fs = "drop ?m (free_slots c)"
    let ?idx1 = "idx[i := i]"
    let ?idx' = "fold (\<lambda>f a. a[f := i]) (take r ?fs) ?idx1"
    have "\<exists>j'. spread i j cnt ?idx1 = Some (j', cnt[i := 1], ?idx')
           \<and> filter (\<lambda>f. cnt ! f = 0) [j'..<length cnt] = drop r ?fs"
    proof (rule spread_spec)
      show "i < length cnt" "length ?idx1 = length cnt" "cnt ! i = Suc r"
        using i Suc.prems(2,3) ci r by simp_all
      show "filter (\<lambda>f. cnt ! f = 0) [j..<length cnt] = ?fs"
        using Suc.prems(6) Suc.prems(2) by simp
      show "r \<le> length ?fs" using mr by simp
    qed
    then obtain j' where sp: "spread i j cnt ?idx1 = Some (j', cnt[i := 1], ?idx')"
      and fj: "filter (\<lambda>f. cnt ! f = 0) [j'..<length cnt] = drop r ?fs"
      by blast
    have inset: "\<And>f. f \<in> set (take r ?fs) \<Longrightarrow> f < ?n \<and> c ! f = 0"
      by (metis free_slots_set in_set_dropD in_set_takeD)
    have len': "length ?idx' = ?n" using Suc.prems(3) by (simp add: fold_update_length)
    have "\<exists>j'' cnt' idx'. flatten_loop [Suc i..<?n] j' (cnt[i := 1]) ?idx' = Some (j'', cnt', idx')
        \<and> length idx' = ?n
        \<and> (\<forall>x<?n. 1 \<le> c ! x \<longrightarrow> idx' ! x = x)
        \<and> (\<forall>m<length (free_slots c). idx' ! (free_slots c ! m) = surplus c ! m)"
    proof (rule Suc.hyps(1) [OF k])
      show "Suc i \<le> ?n" using i by simp
      show "length (cnt[i := 1]) = ?n" using Suc.prems(2) by simp
      show "length ?idx' = ?n" by (rule len')
      show "\<forall>x<?n. (cnt[i := 1] ! x = 0) = (c ! x = 0)"
        using Suc.prems(2,4) r i by (auto simp: nth_list_update)
      show "\<forall>x. Suc i \<le> x \<and> x < ?n \<longrightarrow> cnt[i := 1] ! x = c ! x"
        using Suc.prems(5) by simp
      have "filter (\<lambda>f. cnt[i := 1] ! f = 0) [j'..<?n] = filter (\<lambda>f. cnt ! f = 0) [j'..<?n]"
        using i Suc.prems(2) ci r by (intro filter_zero_update) simp_all
      then show "filter (\<lambda>f. cnt[i := 1] ! f = 0) [j'..<?n]
          = drop (length (surplus_upto (Suc i) c)) (free_slots c)"
        using fj Suc.prems(2) by (simp add: su add.commute)
      show "\<forall>x<Suc i. 1 \<le> c ! x \<longrightarrow> ?idx' ! x = x"
      proof (intro allI impI)
        fix x assume x: "x < Suc i" and cx: "1 \<le> c ! x"
        then have xn: "x < ?n" using i by simp
        from cx inset have "x \<notin> set (take r ?fs)" by fastforce
        then have "?idx' ! x = ?idx1 ! x"
          using xn Suc.prems(3) by (simp add: fold_update_nth)
        also have "\<dots> = x"
          using x cx Suc.prems(3,7) i by (cases "x = i") (auto simp: less_Suc_eq)
        finally show "?idx' ! x = x" .
      qed
      show "\<forall>m<length (surplus_upto (Suc i) c). ?idx' ! (free_slots c ! m) = surplus c ! m"
      proof (intro allI impI)
        fix m assume m: "m < length (surplus_upto (Suc i) c)"
        then have mlt: "m < ?m + r" by (simp add: su)
        with mr have mf: "m < length (free_slots c)" by simp
        then have fm: "free_slots c ! m < ?n" "c ! (free_slots c ! m) = 0"
          using free_slots_set [of "free_slots c ! m" c] by simp_all
        show "?idx' ! (free_slots c ! m) = surplus c ! m"
        proof (cases "m < ?m")
          case True
          from free_slots_before_notin [OF True] mr
          have "free_slots c ! m \<notin> set (take r ?fs)" by (auto dest: in_set_takeD)
          then have "?idx' ! (free_slots c ! m) = ?idx1 ! (free_slots c ! m)"
            using fm Suc.prems(3) by (simp add: fold_update_nth)
          also have "\<dots> = idx ! (free_slots c ! m)" using fm r by (cases "free_slots c ! m = i") auto
          also have "\<dots> = surplus c ! m" using Suc.prems(8) True by simp
          finally show ?thesis .
        next
          case False
          then have ge: "?m \<le> m" by simp
          from free_slots_within_in [OF ge mlt mr]
          have "?idx' ! (free_slots c ! m) = i"
            using fm Suc.prems(3) by (simp add: fold_update_nth)
          moreover have "surplus c ! m = i" using i ge m by (rule surplus_nth)
          ultimately show ?thesis by simp
        qed
      qed
    qed
    moreover have "flatten_loop [i..<?n] j cnt idx = flatten_loop [Suc i..<?n] j' (cnt[i := 1]) ?idx'"
      using i ci r Suc.prems(2,3) sp by (simp add: u)
    ultimately show ?thesis by simp
  qed
qed

lemma count_to_indices_spec:
  fixes c :: "nat list"
  assumes "sum_list c = length c" "length idx0 = length c"
  shows "\<exists>c' idx. count_to_indices (int (length c)) c idx0 = Some (c', idx)
     \<and> length idx = length c
     \<and> (\<forall>x<length c. 1 \<le> c ! x \<longrightarrow> idx ! x = x)
     \<and> (\<forall>m<length (free_slots c). idx ! (free_slots c ! m) = surplus c ! m)"
proof -
  note bal = free_surplus_length [OF assms(1)]
  have "\<exists>j' cnt' idx'. flatten_loop [0..<length c] 0 c idx0 = Some (j', cnt', idx')
        \<and> length idx' = length c
        \<and> (\<forall>x<length c. 1 \<le> c ! x \<longrightarrow> idx' ! x = x)
        \<and> (\<forall>m<length (free_slots c). idx' ! (free_slots c ! m) = surplus c ! m)"
    by (rule flatten_loop_spec [OF bal])
       (simp_all add: assms(2) surplus_upto_def free_slots_def)
  then show ?thesis by (auto simp: count_to_indices_def)
qed

lemma layout_sources:
  fixes c :: "nat list"
  assumes bal: "length (free_slots c) = length (surplus c)"
    and p1: "\<forall>x<length c. 1 \<le> c ! x \<longrightarrow> idx ! x = x"
    and p2: "\<forall>m<length (free_slots c). idx ! (free_slots c ! m) = surplus c ! m"
    and x: "x < length c"
  shows "idx ! x = x \<or> (idx ! x < length c \<and> 2 \<le> c ! (idx ! x))"
proof (cases "c ! x = 0")
  case False
  with p1 x show ?thesis by simp
next
  case True
  with x have "x \<in> set (free_slots c)" by (simp add: free_slots_set)
  then obtain m where m: "m < length (free_slots c)" "free_slots c ! m = x"
    by (auto simp: in_set_conv_nth)
  with p2 have "idx ! x = surplus c ! m" by auto
  moreover have "surplus c ! m \<in> set (surplus c)" using m(1) bal by simp
  ultimately show ?thesis using surplus_set [of "surplus c ! m" c] by simp
qed

text \<open>
  The replication pass in place: when every source slot is its own source, no slot is read
  after it has been overwritten, and every slot ends with the value its source had at the
  start.
\<close>

lemma replicate_loop_in_place:
  assumes fp: "\<forall>x<n. idx ! x < n \<and> idx ! (idx ! x) = idx ! x"
    and len: "length idx = n" "length ps = n"
  shows "i \<le> n \<Longrightarrow> length cur = n \<Longrightarrow>
     (\<forall>x<i. pvalue (cur ! x) = pvalue (ps ! (idx ! x))) \<Longrightarrow>
     (\<forall>x. i \<le> x \<and> x < n \<longrightarrow> pvalue (cur ! x) = pvalue (ps ! x)) \<Longrightarrow>
     \<exists>ps'. replicate_loop [i..<n] idx cur = Some ps'
        \<and> (\<forall>x<n. pvalue (ps' ! x) = pvalue (ps ! (idx ! x)))"
proof (induction "n - i" arbitrary: i cur)
  case 0
  then show ?case by simp
next
  case (Suc k)
  from Suc.hyps(2) have i: "i < n" by simp
  then have u: "[i..<n] = i # [Suc i..<n]" by (rule upt_conv_Cons)
  have k: "k = n - Suc i" using Suc.hyps(2) by simp
  let ?s = "idx ! i"
  from fp i have s: "?s < n" "idx ! ?s = ?s" by simp_all
  have src: "pvalue (cur ! ?s) = pvalue (ps ! ?s)"
  proof (cases "?s < i")
    case True
    with Suc.prems(3) have "pvalue (cur ! ?s) = pvalue (ps ! (idx ! ?s))" by blast
    with s show ?thesis by simp
  next
    case False
    with Suc.prems(4) s show ?thesis by simp
  qed
  define q where "q = (if ?s \<noteq> i
      then SetLogWeight (SetValue (cur ! i) (GetValue (cur ! ?s))) (Fin 0)
      else SetLogWeight (cur ! i) (Fin 0))"
  have q: "pvalue q = pvalue (ps ! ?s)"
    using src Suc.prems(4) i
    by (auto simp: q_def SetLogWeight_def SetValue_def GetValue_def)
  have step: "replicate_loop [i..<n] idx cur = replicate_loop [Suc i..<n] idx (cur[i := q])"
    using i s len Suc.prems(2) by (simp add: u q_def)
  have "\<exists>ps'. replicate_loop [Suc i..<n] idx (cur[i := q]) = Some ps'
        \<and> (\<forall>x<n. pvalue (ps' ! x) = pvalue (ps ! (idx ! x)))"
  proof (rule Suc.hyps(1) [OF k])
    show "Suc i \<le> n" using i by simp
    show "length (cur[i := q]) = n" using Suc.prems(2) by simp
    show "\<forall>x<Suc i. pvalue (cur[i := q] ! x) = pvalue (ps ! (idx ! x))"
      using Suc.prems(2,3) q i by (auto simp: less_Suc_eq nth_list_update)
    show "\<forall>x. Suc i \<le> x \<and> x < n \<longrightarrow> pvalue (cur[i := q] ! x) = pvalue (ps ! x)"
      using Suc.prems(4) by simp
  qed
  with step show ?case by simp
qed

text \<open>
  C2. For a count array \<open>c\<close> of \<open>N\<close> entries that sum to \<open>N\<close>, the flattening returns
  indices \<open>\<pi>\<close> with \<open>\<pi>[i] = i\<close> wherever \<open>c\<^sub>i \<ge> 1\<close>; the slots with count 0, in increasing
  order, receive the surplus copies, in increasing order of the particle copied; every
  source \<open>\<pi>[i]\<close> is \<open>i\<close> itself or a particle with \<open>c \<ge> 2\<close>; and the replication pass in place
  gives every slot the value its source had before the pass, so no source was overwritten
  before it was read.
\<close>

theorem count_to_indices_layout:
  fixes c :: "nat list"
  assumes "sum_list c = length c" and "length idx0 = length c"
  shows "\<exists>c' idx. count_to_indices (int (length c)) c idx0 = Some (c', idx)
     \<and> length idx = length c
     \<and> (\<forall>i<length c. 1 \<le> c ! i \<longrightarrow> idx ! i = i)
     \<and> length (free_slots c) = length (surplus c)
     \<and> (\<forall>m<length (free_slots c). idx ! (free_slots c ! m) = surplus c ! m)
     \<and> (\<forall>i<length c. idx ! i = i \<or> 2 \<le> c ! (idx ! i))
     \<and> (\<forall>ps :: 's particle list. length ps = length c \<longrightarrow>
          (\<exists>ps'. replicate_loop [0..<length c] idx ps = Some ps'
             \<and> (\<forall>i<length c. pvalue (ps' ! i) = pvalue (ps ! (idx ! i)))))"
proof -
  note bal = free_surplus_length [OF assms(1)]
  from count_to_indices_spec [OF assms] obtain c' idx where
    r: "count_to_indices (int (length c)) c idx0 = Some (c', idx)"
    and l: "length idx = length c"
    and p1: "\<forall>x<length c. 1 \<le> c ! x \<longrightarrow> idx ! x = x"
    and p2: "\<forall>m<length (free_slots c). idx ! (free_slots c ! m) = surplus c ! m"
    by blast
  note src = layout_sources [OF bal p1 p2]
  have p3: "\<forall>i<length c. idx ! i = i \<or> 2 \<le> c ! (idx ! i)" using src by blast
  have fx: "\<forall>x<length c. idx ! x < length c \<and> idx ! (idx ! x) = idx ! x"
  proof (intro allI impI)
    fix x assume x: "x < length c"
    from src [OF x] show "idx ! x < length c \<and> idx ! (idx ! x) = idx ! x"
    proof
      assume "idx ! x = x"
      with x show ?thesis by simp
    next
      assume "idx ! x < length c \<and> 2 \<le> c ! (idx ! x)"
      with p1 show ?thesis by simp
    qed
  qed
  have p4: "\<forall>ps :: 's particle list. length ps = length c \<longrightarrow>
          (\<exists>ps'. replicate_loop [0..<length c] idx ps = Some ps'
             \<and> (\<forall>i<length c. pvalue (ps' ! i) = pvalue (ps ! (idx ! i))))"
  proof (intro allI impI)
    fix ps :: "'s particle list" assume lp: "length ps = length c"
    show "\<exists>ps'. replicate_loop [0..<length c] idx ps = Some ps'
             \<and> (\<forall>i<length c. pvalue (ps' ! i) = pvalue (ps ! (idx ! i)))"
      by (rule replicate_loop_in_place [OF fx l lp]) (simp_all add: lp)
  qed
  from r l p1 bal p2 p3 p4 show ?thesis by blast
qed

lemma demo_count_to_indices:
  "count_to_indices 6 [2, 0, 0, 3, 0, 1] [9, 9, 9, 9, 9, 9]
     = Some ([1, 0, 0, 1, 0, 1], [0, 0, 3, 3, 3, 5])"
  by (simp add: count_to_indices_def upt_rec spread.simps find_free.simps)

theorem count_to_indices_layout_witness:
  "sum_list [2, 0, 0, 3, 0, 1] = length [2, 0, 0, 3, 0, 1 :: nat]
   \<and> length [9, 9, 9, 9, 9, 9 :: nat] = length [2, 0, 0, 3, 0, 1 :: nat]
   \<and> count_to_indices 6 [2, 0, 0, 3, 0, 1] [9, 9, 9, 9, 9, 9]
       = Some ([1, 0, 0, 1, 0, 1], [0, 0, 3, 3, 3, 5])
   \<and> free_slots [2, 0, 0, 3, 0, 1] = [1, 2, 4]
   \<and> surplus [2, 0, 0, 3, 0, 1] = [0, 3, 3]
   \<and> (\<exists>ps'. replicate_loop [0..<6] [0, 0, 3, 3, 3, 5]
               (map (\<lambda>v. new_particle v (Fin (- 1))) [10, 11, 12, 13, 14, 15 :: nat]) = Some ps'
          \<and> map pvalue ps' = [10, 10, 13, 13, 13, 15])"
proof -
  let ?c = "[2, 0, 0, 3, 0, 1 :: nat]"
  let ?ps = "map (\<lambda>v. new_particle v (Fin (- 1))) [10, 11, 12, 13, 14, 15 :: nat]"
  have h: "sum_list ?c = length ?c" "length [9, 9, 9, 9, 9, 9 :: nat] = length ?c" by simp_all
  have f: "free_slots ?c = [1, 2, 4]" by (simp add: free_slots_def upt_rec)
  have s: "surplus ?c = [0, 3, 3]"
    by (simp add: surplus_def surplus_upto_def upt_rec numeral_3_eq_3)
  have l6: "length ?c = 6" by simp
  from count_to_indices_layout [OF h, where ?'s = nat] obtain c' idx where
    e: "count_to_indices (int (length ?c)) ?c [9, 9, 9, 9, 9, 9] = Some (c', idx)"
    and a: "\<forall>ps :: nat particle list. length ps = length ?c \<longrightarrow>
          (\<exists>ps'. replicate_loop [0..<length ?c] idx ps = Some ps'
             \<and> (\<forall>i<length ?c. pvalue (ps' ! i) = pvalue (ps ! (idx ! i))))"
    by blast
  from e demo_count_to_indices have idx: "idx = [0, 0, 3, 3, 3, 5]" by simp
  have "length ?ps = length ?c" by simp
  with a obtain ps' where "replicate_loop [0..<length ?c] idx ?ps = Some ps'"
    and "\<forall>i<length ?c. pvalue (ps' ! i) = pvalue (?ps ! (idx ! i))"
    by blast
  then have r: "replicate_loop [0..<6] [0, 0, 3, 3, 3, 5] ?ps = Some ps'"
    unfolding idx l6 by blast
  have "replicate_loop [0..<6] [0, 0, 3, 3, 3, 5] ?ps
      = Some (map (\<lambda>v. new_particle v (Fin 0)) [10, 10, 13, 13, 13, 15])"
    by (simp add: upt_rec new_particle_def SetLogWeight_def SetValue_def GetValue_def)
  with r have "map pvalue ps' = [10, 10, 13, 13, 13, 15]"
    by (simp add: new_particle_def)
  with r have ex: "\<exists>ps'. replicate_loop [0..<6] [0, 0, 3, 3, 3, 5] ?ps = Some ps'
          \<and> map pvalue ps' = [10, 10, 13, 13, 13, 15]"
    by (intro exI conjI)
  from h(1) h(2) demo_count_to_indices f s ex show ?thesis by (intro conjI)
qed

subsection \<open>Child counts\<close>

lemma sum_list_update_inc:
  fixes cnt :: "nat list"
  shows "k < length cnt \<Longrightarrow> sum_list (cnt[k := cnt ! k + 1]) = sum_list cnt + 1"
  by (simp add: sum_list_update)

lemma nth_le_sum_list:
  fixes cnt :: "nat list"
  shows "k < length cnt \<Longrightarrow> cnt ! k \<le> sum_list cnt"
  by (induction cnt arbitrary: k) (auto simp: nth_Cons split: nat.splits intro: trans_le_add2)

text \<open>
  The loops of the stratified and systematic cases count what they hand out, whatever the
  arithmetic does: the counts sum to \<open>j\<close> throughout, and the outer loop ends only when \<open>j\<close>
  has reached \<open>N\<close>.
\<close>

lemma strat_inner_sum:
  assumes "strat_inner ar R redraw n k cum j rand cnt g = Some (j', rand', cnt', g')"
    and "n < 2 ^ 31" "int j \<le> n" "sum_list cnt = j"
  shows "sum_list cnt' = j' \<and> int j' \<le> n \<and> length cnt' = length cnt"
  using assms
proof (induction ar R redraw n k cum j rand cnt g rule: strat_inner.induct)
  case (1 ar R redraw n k cum j rand cnt g)
  show ?case
  proof (cases "dless (rounded (rnd ar) (ddiv (of_long (int j)) (of_long n)))
                  (rounded (rnd ar) (dsub cum rand)) \<and> int j < n")
    case False
    with "1.prems" show ?thesis by (subst (asm) strat_inner.simps) auto
  next
    case True
    with "1.prems"(1) have k: "k < length cnt"
      by (subst (asm) strat_inner.simps) (auto split: if_splits)
    obtain rand1 g1 where dr: "(if redraw
        then Uniform R g (Fin 0) (rounded (rnd ar) (ddiv (Fin 1) (of_long n)))
        else (rand, g)) = (rand1, g1)"
      by (cases "if redraw then Uniform R g (Fin 0) (rounded (rnd ar) (ddiv (Fin 1) (of_long n)))
                 else (rand, g)") auto
    let ?cnt = "cnt[k := (cnt ! k + 1) mod 2 ^ 32]"
    have step: "strat_inner ar R redraw n k cum (j + 1) rand1 ?cnt g1 = Some (j', rand', cnt', g')"
      using "1.prems"(1) True k dr by (subst (asm) strat_inner.simps) simp
    have "cnt ! k \<le> j" using nth_le_sum_list [OF k] "1.prems"(4) by simp
    with True "1.prems"(2) have "cnt ! k + 1 < 2 ^ 32" by simp
    then have upd: "?cnt = cnt[k := cnt ! k + 1]" by simp
    have s: "sum_list ?cnt = j + 1"
      unfolding upd using sum_list_update_inc [OF k] "1.prems"(4) by simp
    have j1: "int (j + 1) \<le> n" using True by simp
    from "1.IH" [OF True k dr [symmetric] step "1.prems"(2) j1 s]
    show ?thesis by simp
  qed
qed

lemma strat_outer_sum:
  assumes "strat_outer ar R redraw n ps W j k cum rand cnt g = Some (cnt', g')"
    and "n < 2 ^ 31" "int j \<le> n" "sum_list cnt = j"
  shows "int (sum_list cnt') = n \<and> length cnt' = length cnt"
  using assms
proof (induction ar R redraw n ps W j k cum rand cnt g rule: strat_outer.induct)
  case (1 ar R redraw n ps W j k cum rand cnt g)
  show ?case
  proof (cases "int j < n")
    case False
    with "1.prems" show ?thesis by (subst (asm) strat_outer.simps) auto
  next
    case True
    with "1.prems"(1) obtain j1 rand1 cnt1 g1 where
      inner: "strat_inner ar R redraw n k cum j rand cnt g = Some (j1, rand1, cnt1, g1)"
      and k: "k + 1 < length ps"
      and step: "strat_outer ar R redraw n ps W j1 (k + 1)
          (rounded (rnd ar)
             (dadd cum (rounded (rnd ar)
                (ddiv (fexp (exp_d ar) (GetLogWeight (ps ! (k + 1)))) W))))
          rand1 cnt1 g1 = Some (cnt', g')"
      by (subst (asm) strat_outer.simps) (auto split: option.splits if_splits)
    from strat_inner_sum [OF inner "1.prems"(2,3,4)]
    have i: "sum_list cnt1 = j1" "int j1 \<le> n" "length cnt1 = length cnt" by simp_all
    from "1.IH" [OF True inner refl refl refl k step "1.prems"(2) i(2) i(1)] i(3)
    show ?thesis by simp
  qed
qed

text \<open>
  So a stratified or systematic count that returns has handed out exactly \<open>N\<close> children.
\<close>

lemma stratified_counts_sum:
  assumes "stratified_counts ar R redraw n ps cnt g = Some (cnt', g')"
    and "0 \<le> n" "n < 2 ^ 31" "length cnt = nat n"
  shows "sum_list cnt' = nat n \<and> length cnt' = nat n"
proof -
  from assms(1) obtain W dRand g1 w0 where
    "strat_outer ar R redraw n ps W 0 0 (rounded (rnd ar) (ddiv (fexp (exp_d ar) w0) W)) dRand
       (overwrite (replicate (nat n) 0) cnt) g1 = Some (cnt', g')"
    by (auto simp: stratified_counts_def split: option.splits prod.splits if_splits)
  moreover have "overwrite (replicate (nat n) 0) cnt = replicate (nat n) 0"
    using assms(4) by (simp add: overwrite_def)
  ultimately have "strat_outer ar R redraw n ps W 0 0
      (rounded (rnd ar) (ddiv (fexp (exp_d ar) w0) W)) dRand (replicate (nat n) 0) g1
      = Some (cnt', g')" by simp
  from strat_outer_sum [OF this assms(3)] assms(2)
  have "int (sum_list cnt') = n \<and> length cnt' = nat n" by simp
  then show ?thesis by auto
qed

text \<open>The binary64 roundings again, for an argument in any notation.\<close>

lemma binary64_at:
  "x = 1 \<Longrightarrow> round_to 53 (- 1022) x = Fin 1"
  "x = 2 \<Longrightarrow> round_to 53 (- 1022) x = Fin 2"
  "x = 1 / 2 \<Longrightarrow> round_to 53 (- 1022) x = Fin (1 / 2)"
  "x = 1 / 2 ^ 54 \<Longrightarrow> round_to 53 (- 1022) x = Fin (1 / 2 ^ 54)"
  "x = 1 / 2 + 1 / 2 ^ 54 \<Longrightarrow> round_to 53 (- 1022) x = Fin (1 / 2)"
  by (simp_all only: binary64_values)

text \<open>
  C1. The claim fails on the code, in the stratified mode. Take two particles of log-weight
  0, binary64 arithmetic, and a generator whose every draw from \<open>[0, 1/2)\<close> is
  \<open>1/2 - 2\<^sup>-\<^sup>5\<^sup>4\<close>. The first particle receives one child (first equation). At the second
  particle the cumulative weight is 1, and \<open>1 - (1/2 - 2\<^sup>-\<^sup>5\<^sup>4)\<close> is rounded to \<open>1/2\<close>, which is
  not above \<open>j / N = 1/2\<close>: the inner loop ends without handing out the second child, the counts
  are \<open>[1, 0]\<close> (second equation). The outer loop then advances \<open>k\<close> to 2 and reads
  \<^verbatim>\<open>pParticles[2]\<close>, past the end of the vector: the call does not return normally.
\<close>

theorem stratified_misses_last_child:
  "strat_inner x86_arith edge_rng True 2 0 (Fin (1 / 2)) 0 (Fin (1 / 2 - 1 / 2 ^ 54)) [0, 0] 1
     = Some (1, Fin (1 / 2 - 1 / 2 ^ 54), [1, 0], 2)
   \<and> strat_inner x86_arith edge_rng True 2 1 (Fin 1) 1 (Fin (1 / 2 - 1 / 2 ^ 54)) [1, 0] 2
     = Some (1, Fin (1 / 2 - 1 / 2 ^ 54), [1, 0], 2)
   \<and> Resample_counts x86_arith edge_rng SMC_RESAMPLE_STRATIFIED (demo_sampler [Fin 0, Fin 0])
     = None
   \<and> Resample x86_arith edge_rng SMC_RESAMPLE_STRATIFIED (demo_sampler [Fin 0, Fin 0]) = None"
proof -
  have a: "strat_inner x86_arith edge_rng True 2 0 (Fin (1 / 2)) 0 (Fin (1 / 2 - 1 / 2 ^ 54))
      [0, 0] 1 = Some (1, Fin (1 / 2 - 1 / 2 ^ 54), [1, 0], 2)"
    by (simp add: strat_inner.simps x86_arith_def edge_rng_def rounded_def dsub_def of_long_def
        binary64_at)
  have b: "strat_inner x86_arith edge_rng True 2 1 (Fin 1) 1 (Fin (1 / 2 - 1 / 2 ^ 54))
      [1, 0] 2 = Some (1, Fin (1 / 2 - 1 / 2 ^ 54), [1, 0], 2)"
    by (simp add: strat_inner.simps x86_arith_def edge_rng_def rounded_def dsub_def of_long_def
        binary64_at)
  have c: "Resample_counts x86_arith edge_rng SMC_RESAMPLE_STRATIFIED
      (demo_sampler [Fin 0, Fin 0]) = None"
    by (simp add: Resample_counts_def stratified_counts_def weight_sum_def logweight_at_def
        demo_sampler_def upt_rec new_particle_def GetLogWeight_def overwrite_def of_long_def
        Let_def replicate_2 strat_outer.simps strat_inner.simps x86_arith_def edge_rng_def
        rounded_def fexp_def dsub_def binary64_at)
  then have d: "Resample x86_arith edge_rng SMC_RESAMPLE_STRATIFIED
      (demo_sampler [Fin 0, Fin 0]) = None"
    by (simp add: Resample_def)
  from a b c d show ?thesis by (intro conjI)
qed

text \<open>
  In exact arithmetic the same step hands out the second child, and the counts are \<open>[1, 1]\<close>.
\<close>

lemma stratified_exact_step:
  "strat_inner exact_arith edge_rng True 2 1 (Fin 1) 1 (Fin (1 / 2 - 1 / 2 ^ 54)) [1, 0] 2
     = Some (2, Fin (1 / 2 - 1 / 2 ^ 54), [1, 1], 3)"
  by (simp add: strat_inner.simps exact_arith_def edge_rng_def rounded_Fin dsub_def of_long_def)

text \<open>
  The read past the end does not need an unlucky draw. With two particles of log-weight 0
  the last child always goes to the last particle; with every draw 0 the counts become
  \<open>[1, 1]\<close>, and then \<^verbatim>\<open>k++\<close> and the read of \<^verbatim>\<open>pParticles[2]\<close> come before the next test of
  \<^verbatim>\<open>j < N\<close>.
\<close>

lemma stratified_reads_past_the_end:
  "strat_inner x86_arith demo_rng True 2 1 (Fin 1) 1 (Fin 0) [1, 0] 2 = Some (2, Fin 0, [1, 1], 3)
   \<and> Resample_counts x86_arith demo_rng SMC_RESAMPLE_STRATIFIED (demo_sampler [Fin 0, Fin 0])
     = None"
proof -
  have "strat_inner x86_arith demo_rng True 2 1 (Fin 1) 1 (Fin 0) [1, 0] 2
      = Some (2, Fin 0, [1, 1], 3)"
    by (simp add: strat_inner.simps x86_arith_def demo_rng_def rounded_def dsub_def of_long_def
        binary64_at)
  moreover have "Resample_counts x86_arith demo_rng SMC_RESAMPLE_STRATIFIED
      (demo_sampler [Fin 0, Fin 0]) = None"
    by (simp add: Resample_counts_def stratified_counts_def weight_sum_def logweight_at_def
        demo_sampler_def upt_rec new_particle_def GetLogWeight_def overwrite_def of_long_def
        Let_def replicate_2 strat_outer.simps strat_inner.simps x86_arith_def demo_rng_def
        rounded_def fexp_def dsub_def binary64_at)
  ultimately show ?thesis by (intro conjI)
qed

end
